theory Spec2Isabelle
  imports Main "HOL-Library.Word" "HOL-Library.Multiset"
begin

section \<open>Python values, exceptions and the sources of randomness\<close>

text \<open>
  The mixing pipeline of \<^verbatim>\<open>random_api.py\<close> works on Python integers (unbounded, \<open>int\<close>),
  on \<^verbatim>\<open>bytes\<close> (lists of 8-bit words) and on \<^verbatim>\<open>str\<close> (\<open>string\<close>). Every exception the
  interpreter can raise inside \<^verbatim>\<open>pipeline\<close> is a value of \<open>error\<close>.
\<close>

datatype error = ValueError | OverflowError | ZeroDivisionError | IndexError | MemoryError

type_synonym byte = "8 word"

text \<open>
  Two generators are used by the source: \<^verbatim>\<open>secrets\<close> (the operating system's entropy) and
  the module-level generator of \<^verbatim>\<open>random\<close> (used by \<^verbatim>\<open>random.shuffle\<close>). Each is an
  infinite feed of raw draws together with the number of draws consumed so far, so that a
  run of the pipeline is a function of the feeds and "no draw is made" is observable.
\<close>

record rng =
  secrets_feed :: "nat \<Rightarrow> nat"
  secrets_used :: nat
  random_feed :: "nat \<Rightarrow> nat"
  random_used :: nat

text \<open>
  A computation that may raise: \<open>Inl\<close> is the exception. A computation that also draws
  random numbers threads the generator state; the state survives an exception, as the
  consumed entropy does.
\<close>

type_synonym 'a io = "rng \<Rightarrow> (error + 'a) \<times> rng"

definition bindE :: "error + 'a \<Rightarrow> ('a \<Rightarrow> error + 'b) \<Rightarrow> error + 'b" where
  "bindE m f = (case m of Inl e \<Rightarrow> Inl e | Inr x \<Rightarrow> f x)"

definition ret :: "'a \<Rightarrow> 'a io" where
  "ret x = (\<lambda>st. (Inr x, st))"

definition lift :: "error + 'a \<Rightarrow> 'a io" where
  "lift r = (\<lambda>st. (r, st))"

definition bindM :: "'a io \<Rightarrow> ('a \<Rightarrow> 'b io) \<Rightarrow> 'b io" where
  "bindM m f = (\<lambda>st. case m st of (Inl e, st') \<Rightarrow> (Inl e, st') | (Inr x, st') \<Rightarrow> f x st')"

text \<open>\<^verbatim>\<open>for _ in range(n): x = body(x)\<close>, with \<open>n\<close> already clipped at zero.\<close>

fun for_range :: "nat \<Rightarrow> ('a \<Rightarrow> 'a io) \<Rightarrow> 'a \<Rightarrow> 'a io" where
  "for_range 0 body x = ret x"
| "for_range (Suc k) body x = bindM (body x) (for_range k body)"

fun for_rangeE :: "nat \<Rightarrow> ('a \<Rightarrow> error + 'a) \<Rightarrow> 'a \<Rightarrow> error + 'a" where
  "for_rangeE 0 body x = Inr x"
| "for_rangeE (Suc k) body x = bindE (body x) (for_rangeE k body)"

text \<open>
  \<^verbatim>\<open>secrets.randbelow(n)\<close>: a value in \<open>[0, n)\<close>; \<^verbatim>\<open>ValueError\<close> when \<open>n \<le> 0\<close>. Every value
  of the range is the result for some feed.
\<close>

definition secrets_randbelow :: "int \<Rightarrow> int io" where
  "secrets_randbelow n = (\<lambda>st.
     if n \<le> 0 then (Inl ValueError, st)
     else (Inr (int (secrets_feed st (secrets_used st)) mod n),
           st\<lparr>secrets_used := Suc (secrets_used st)\<rparr>))"

text \<open>The \<^verbatim>\<open>_randbelow\<close> of \<^verbatim>\<open>random\<close>, as \<^verbatim>\<open>random.shuffle\<close> calls it (bound at least 2).\<close>

definition random_randbelow :: "nat \<Rightarrow> nat io" where
  "random_randbelow n = (\<lambda>st.
     if n = 0 then (Inl ValueError, st)
     else (Inr (random_feed st (random_used st) mod n),
           st\<lparr>random_used := Suc (random_used st)\<rparr>))"

section \<open>Hex strings and byte strings\<close>

definition hexdigits :: string where
  "hexdigits = ''0123456789abcdef''"

definition hex_digit :: "nat \<Rightarrow> char" where
  "hex_digit d = hexdigits ! d"

text \<open>\<^verbatim>\<open>bytes.hex()\<close>: two lowercase digits per byte, high nibble first.\<close>

definition hexlify :: "byte list \<Rightarrow> string" where
  "hexlify bs = concat (map (\<lambda>b. [hex_digit (unat b div 16), hex_digit (unat b mod 16)]) bs)"

text \<open>A string of lowercase hexadecimal digits, as \<^verbatim>\<open>hexdigest\<close> prints them.\<close>

definition lower_hex :: "string \<Rightarrow> bool" where
  "lower_hex s \<longleftrightarrow> set s \<subseteq> set hexdigits"

text \<open>The value of one hexadecimal digit, in either case, as \<^verbatim>\<open>int(s, 16)\<close> reads it.\<close>

definition hex_val :: "char \<Rightarrow> nat option" where
  "hex_val c = (let k = (of_char c :: nat) in
     if 48 \<le> k \<and> k \<le> 57 then Some (k - 48)
     else if 97 \<le> k \<and> k \<le> 102 then Some (k - 87)
     else if 65 \<le> k \<and> k \<le> 70 then Some (k - 55)
     else None)"

fun hex_digits_value :: "nat \<Rightarrow> string \<Rightarrow> nat option" where
  "hex_digits_value acc [] = Some acc"
| "hex_digits_value acc (c # cs) =
     (case hex_val c of None \<Rightarrow> None | Some d \<Rightarrow> hex_digits_value (16 * acc + d) cs)"

text \<open>
  \<^verbatim>\<open>int(s, 16)\<close> on the strings the pipeline passes to it: digit strings without sign,
  prefix, blanks or underscores. The empty string and a string with a character that is
  not a hexadecimal digit raise \<^verbatim>\<open>ValueError\<close>.
\<close>

definition int16 :: "string \<Rightarrow> error + int" where
  "int16 s = (if s = [] then Inl ValueError
              else case hex_digits_value 0 s of None \<Rightarrow> Inl ValueError | Some n \<Rightarrow> Inr (int n))"

text \<open>\<^verbatim>\<open>bytes.fromhex(s)\<close> on strings without blanks: pairs of hexadecimal digits.\<close>

fun fromhex :: "string \<Rightarrow> error + byte list" where
  "fromhex [] = Inr []"
| "fromhex [c] = Inl ValueError"
| "fromhex (a # b # cs) =
     (case (hex_val a, hex_val b) of
        (Some h, Some l) \<Rightarrow> bindE (fromhex cs) (\<lambda>bs. Inr (of_nat (16 * h + l) # bs))
      | _ \<Rightarrow> Inl ValueError)"

text \<open>\<^verbatim>\<open>int.bit_length()\<close>: the number of bits of the absolute value.\<close>

fun nat_bit_length :: "nat \<Rightarrow> nat" where
  "nat_bit_length n = (if n = 0 then 0 else Suc (nat_bit_length (n div 2)))"

declare nat_bit_length.simps [simp del]

definition bit_length :: "int \<Rightarrow> nat" where
  "bit_length v = nat_bit_length (nat \<bar>v\<bar>)"

text \<open>The \<open>n\<close> low-order base-256 digits of \<open>v\<close>, most significant first.\<close>

fun be_bytes :: "nat \<Rightarrow> nat \<Rightarrow> byte list" where
  "be_bytes v 0 = []"
| "be_bytes v (Suc n) = be_bytes (v div 256) n @ [of_nat (v mod 256)]"

text \<open>
  \<^verbatim>\<open>value.to_bytes(length, "big")\<close>: \<^verbatim>\<open>OverflowError\<close> for a negative value and for a
  value that does not fit into \<open>length\<close> bytes.
\<close>

definition to_bytes :: "int \<Rightarrow> nat \<Rightarrow> error + byte list" where
  "to_bytes v n = (if v < 0 then Inl OverflowError
                   else if 256 ^ n \<le> v then Inl OverflowError
                   else Inr (be_bytes (nat v) n))"

text \<open>\<^verbatim>\<open>int.from_bytes(bs, "big")\<close>, the inverse reading of a byte string.\<close>

definition from_bytes :: "byte list \<Rightarrow> nat" where
  "from_bytes bs = foldl (\<lambda>a b. 256 * a + unat b) 0 bs"

text \<open>\<^verbatim>\<open>byte_len = max((value.bit_length() + 7) // 8, 1)\<close> (lines 57, 105, 111, 131).\<close>

definition byte_len :: "int \<Rightarrow> nat" where
  "byte_len v = max ((bit_length v + 7) div 8) 1"

text \<open>\<^verbatim>\<open>a // b\<close>: floor division, \<^verbatim>\<open>ZeroDivisionError\<close> for a zero divisor.\<close>

definition floordiv :: "int \<Rightarrow> int \<Rightarrow> error + int" where
  "floordiv a b = (if b = 0 then Inl ZeroDivisionError else Inr (a div b))"

text \<open>
  \<^verbatim>\<open>math.isqrt\<close>: the largest integer whose square does not exceed the argument, computed
  digit by digit in base 2.
\<close>

fun isqrt :: "nat \<Rightarrow> nat" where
  "isqrt n = (if n < 2 then n
              else let r = 2 * isqrt (n div 4) in
                   if (r + 1) * (r + 1) \<le> n then r + 1 else r)"

declare isqrt.simps [simp del]

section \<open>The extendable-output hash\<close>

text \<open>
  \<^verbatim>\<open>hashlib.shake_128\<close> and \<^verbatim>\<open>hashlib.shake_256\<close> are library primitives. An
  extendable-output function maps the input bytes to an unbounded stream of output bytes,
  of which \<^verbatim>\<open>hexdigest(n)\<close> prints the first \<open>n\<close>. The library takes \<open>n\<close> as a signed
  64-bit size and allocates a buffer of \<open>n\<close> bytes before it squeezes, so the call fails
  for lengths it cannot take. The streams and the size of the largest buffer the platform
  hands out are parameters of the model: nothing about the content of the streams is
  assumed.
\<close>

datatype variant = Shake128 | Shake256

record hashlib =
  stream :: "variant \<Rightarrow> byte list \<Rightarrow> nat \<Rightarrow> byte"
  capacity :: nat

definition squeeze :: "(nat \<Rightarrow> byte) \<Rightarrow> nat \<Rightarrow> byte list" where
  "squeeze out n = map out [0..<n]"

text \<open>
  \<^verbatim>\<open>hexdigest(n)\<close>: \<^verbatim>\<open>OverflowError\<close> when \<open>n\<close> is not a signed 64-bit number,
  \<^verbatim>\<open>MemoryError\<close> when \<open>n\<close> is negative or the buffer cannot be allocated, and the hex
  print of the first \<open>n\<close> output bytes otherwise.
\<close>

definition hexdigest :: "nat \<Rightarrow> (nat \<Rightarrow> byte) \<Rightarrow> int \<Rightarrow> error + string" where
  "hexdigest cap out n =
     (if n < - (2 ^ 63) \<or> 2 ^ 63 \<le> n then Inl OverflowError
      else if n < 0 then Inl MemoryError
      else if cap < nat n then Inl MemoryError
      else Inr (hexlify (squeeze out (nat n))))"

text \<open>\<^verbatim>\<open>shake_hash\<close> (lines 27 to 32).\<close>

definition shake_hash :: "hashlib \<Rightarrow> byte list \<Rightarrow> int \<Rightarrow> string \<Rightarrow> error + string" where
  "shake_hash X data out_len_chars alg =
     (let out_len_bytes = out_len_chars div 2 in
      if alg = ''shake_128'' then hexdigest (capacity X) (stream X Shake128 data) out_len_bytes
      else hexdigest (capacity X) (stream X Shake256 data) out_len_bytes)"

text \<open>
  A digest of \<open>n\<close> hex characters is within reach of the library: its byte count is a
  signed 64-bit number and the platform can allocate it.
\<close>

definition digest_fits :: "hashlib \<Rightarrow> int \<Rightarrow> bool" where
  "digest_fits X n \<longleftrightarrow> n div 2 < 2 ^ 63 \<and> nat (n div 2) \<le> capacity X"

section \<open>The helpers of the pipeline\<close>

text \<open>\<^verbatim>\<open>list.pop(idx)\<close> for an index counted from the front.\<close>

definition pop_at :: "'a list \<Rightarrow> int \<Rightarrow> error + 'a list" where
  "pop_at lst idx = (if 0 \<le> idx \<and> idx < int (length lst)
                     then Inr (take (nat idx) lst @ drop (Suc (nat idx)) lst)
                     else Inl IndexError)"

text \<open>\<^verbatim>\<open>remove_random_chars\<close> (lines 35 to 40).\<close>

definition remove_random_chars :: "string \<Rightarrow> int \<Rightarrow> string io" where
  "remove_random_chars s n =
     for_range (nat (min n (int (length s))))
       (\<lambda>lst. bindM (secrets_randbelow (int (length lst))) (\<lambda>idx. lift (pop_at lst idx)))
       s"

text \<open>\<^verbatim>\<open>multiply_by_random\<close> (lines 43 to 46).\<close>

definition multiply_by_random :: "int \<Rightarrow> int \<Rightarrow> int io" where
  "multiply_by_random v times' =
     for_range (nat times')
       (\<lambda>value. bindM (secrets_randbelow (2 ^ 32)) (\<lambda>r. ret (value * (r + 1))))
       v"

text \<open>\<^verbatim>\<open>add_random\<close> (lines 49 to 52).\<close>

definition add_random :: "int \<Rightarrow> int \<Rightarrow> int io" where
  "add_random v times' =
     for_range (nat times')
       (\<lambda>value. bindM (secrets_randbelow (2 ^ 32)) (\<lambda>r. ret (value + r)))
       v"

text \<open>\<^verbatim>\<open>repeated_hashing\<close> (lines 55 to 60).\<close>

definition repeated_hashing :: "hashlib \<Rightarrow> int \<Rightarrow> int \<Rightarrow> int \<Rightarrow> string \<Rightarrow> error + int" where
  "repeated_hashing X v hash_len_chars loops alg =
     for_rangeE (nat loops)
       (\<lambda>value. bindE (to_bytes value (byte_len value)) (\<lambda>bs.
                bindE (shake_hash X bs hash_len_chars alg) (\<lambda>h.
                int16 h)))
       v"

text \<open>\<^verbatim>\<open>sqrt_and_divide\<close> (lines 63 to 67); \<^verbatim>\<open>math.isqrt\<close> rejects a negative argument.\<close>

definition sqrt_and_divide :: "int \<Rightarrow> int \<Rightarrow> error + int" where
  "sqrt_and_divide v divisor =
     (if v < 0 then Inl ValueError
      else let root = int (isqrt (nat v)) in floordiv root divisor)"

text \<open>
  \<^verbatim>\<open>random.shuffle\<close>: for \<open>i\<close> from \<open>len - 1\<close> down to \<open>1\<close>, exchange position \<open>i\<close> with a
  random position \<open>j \<le> i\<close>. \<open>shuffle_down i\<close> runs the iterations \<open>i, i - 1, \<dots>, 1\<close>.
\<close>

fun shuffle_down :: "nat \<Rightarrow> 'a list \<Rightarrow> 'a list io" where
  "shuffle_down 0 x = ret x"
| "shuffle_down (Suc k) x =
     bindM (random_randbelow (Suc k + 1)) (\<lambda>j. shuffle_down k (x[Suc k := x ! j, j := x ! Suc k]))"

text \<open>\<^verbatim>\<open>shuffle_string\<close> (lines 70 to 73).\<close>

definition shuffle_string :: "string \<Rightarrow> string io" where
  "shuffle_string s = shuffle_down (length s - 1) s"

section \<open>The pipeline\<close>

text \<open>The keyword parameters of \<^verbatim>\<open>pipeline\<close> (lines 78 to 86); all are Python integers.\<close>

record config =
  loops :: int
  mul_times :: int
  add_times :: int
  hash1_len :: int
  hash1_loops :: int
  hash2_len :: int
  remove_chars :: int
  hash4_len :: int
  final_div :: int

text \<open>The slice \<^verbatim>\<open>s[:k]\<close>; a negative \<open>k\<close> counts from the end.\<close>

definition slice_to :: "'a list \<Rightarrow> int \<Rightarrow> 'a list" where
  "slice_to s k = (if 0 \<le> k then take (nat k) s else take (nat (int (length s) + k)) s)"

text \<open>Lines 105 to 108: hash, reverse the digest, parse it.\<close>

definition hash_reverse :: "hashlib \<Rightarrow> config \<Rightarrow> int \<Rightarrow> error + int" where
  "hash_reverse X c v =
     bindE (to_bytes v (byte_len v)) (\<lambda>bs.
     bindE (shake_hash X bs (hash1_len c) ''shake_256'') (\<lambda>h3.
     int16 (rev h3)))"

text \<open>Lines 111 to 113: hash again; the digest \<open>h4\<close> is kept beside the value.\<close>

definition hash_again :: "hashlib \<Rightarrow> config \<Rightarrow> int \<Rightarrow> error + int \<times> string" where
  "hash_again X c v =
     bindE (to_bytes v (byte_len v)) (\<lambda>bs.
     bindE (shake_hash X bs (hash1_len c) ''shake_256'') (\<lambda>h4.
     bindE (int16 h4) (\<lambda>value.
     Inr (value, h4))))"

text \<open>Lines 116 to 122: shuffle \<open>h4\<close>, decode a prefix of it, hash the bytes, parse.\<close>

definition shuffle_rehash :: "hashlib \<Rightarrow> config \<Rightarrow> string \<Rightarrow> (int \<times> string) io" where
  "shuffle_rehash X c h4 =
     bindM (shuffle_string h4) (\<lambda>shuffled.
     lift (bindE (fromhex (slice_to shuffled (hash2_len c * 2))) (\<lambda>shuffled_bytes.
           bindE (shake_hash X shuffled_bytes (hash2_len c) ''shake_128'') (\<lambda>h5.
           bindE (int16 h5) (\<lambda>value.
           Inr (value, h5))))))"

text \<open>
  Lines 125 to 128: delete characters of \<open>h5\<close>, parse what is left, multiply by a random
  factor. The left operand of the product is evaluated first.
\<close>

definition trim_multiply :: "config \<Rightarrow> string \<Rightarrow> int io" where
  "trim_multiply c h5 =
     bindM (remove_random_chars h5 (remove_chars c)) (\<lambda>trimmed.
     bindM (lift (int16 trimmed)) (\<lambda>parsed.
     bindM (secrets_randbelow (2 ^ 16)) (\<lambda>r.
     ret (parsed * (r + 1)))))"

text \<open>Lines 131 to 143: the last hash, the division, the truncated digest, the reduction.\<close>

definition final_reduce :: "hashlib \<Rightarrow> config \<Rightarrow> int \<Rightarrow> error + int" where
  "final_reduce X c v =
     bindE (to_bytes v (byte_len v)) (\<lambda>bs.
     bindE (shake_hash X bs (hash4_len c) ''shake_256'') (\<lambda>h6.
     bindE (int16 h6) (\<lambda>value.
     bindE (floordiv value (final_div c)) (\<lambda>value.
     bindE (int16 (slice_to h6 4096)) (\<lambda>value.
     Inr (value mod 256))))))"

text \<open>The body of the loop of \<^verbatim>\<open>pipeline\<close> (lines 91 to 143): one pass.\<close>

definition pipeline_pass :: "hashlib \<Rightarrow> config \<Rightarrow> int \<Rightarrow> int io" where
  "pipeline_pass X c v =
     bindM (multiply_by_random v (mul_times c)) (\<lambda>value.
     bindM (add_random value (add_times c)) (\<lambda>value.
     bindM (lift (repeated_hashing X value (hash1_len c) (hash1_loops c) ''shake_256'')) (\<lambda>value.
     bindM (lift (repeated_hashing X value (hash2_len c) 1 ''shake_128'')) (\<lambda>value.
     bindM (lift (sqrt_and_divide value 4)) (\<lambda>value.
     bindM (lift (hash_reverse X c value)) (\<lambda>value.
     bindM (lift (hash_again X c value)) (\<lambda>(value, h4).
     bindM (shuffle_rehash X c h4) (\<lambda>(value, h5).
     bindM (trim_multiply c h5) (\<lambda>value.
     lift (final_reduce X c value))))))))))"

text \<open>\<^verbatim>\<open>pipeline\<close> (lines 76 to 145).\<close>

definition pipeline :: "hashlib \<Rightarrow> int \<Rightarrow> config \<Rightarrow> int io" where
  "pipeline X initial_value c = for_range (nat (loops c)) (pipeline_pass X c) initial_value"

subsection \<open>The pipeline without the division of line 136\<close>

text \<open>
  The variant the specification's design notes describe: the same pass with the statement
  \<^verbatim>\<open>value //= final_div\<close> removed, everything else as in the source.
\<close>

definition final_reduce_elided :: "hashlib \<Rightarrow> config \<Rightarrow> int \<Rightarrow> error + int" where
  "final_reduce_elided X c v =
     bindE (to_bytes v (byte_len v)) (\<lambda>bs.
     bindE (shake_hash X bs (hash4_len c) ''shake_256'') (\<lambda>h6.
     bindE (int16 h6) (\<lambda>value.
     bindE (int16 (slice_to h6 4096)) (\<lambda>value.
     Inr (value mod 256)))))"

definition pipeline_pass_elided :: "hashlib \<Rightarrow> config \<Rightarrow> int \<Rightarrow> int io" where
  "pipeline_pass_elided X c v =
     bindM (multiply_by_random v (mul_times c)) (\<lambda>value.
     bindM (add_random value (add_times c)) (\<lambda>value.
     bindM (lift (repeated_hashing X value (hash1_len c) (hash1_loops c) ''shake_256'')) (\<lambda>value.
     bindM (lift (repeated_hashing X value (hash2_len c) 1 ''shake_128'')) (\<lambda>value.
     bindM (lift (sqrt_and_divide value 4)) (\<lambda>value.
     bindM (lift (hash_reverse X c value)) (\<lambda>value.
     bindM (lift (hash_again X c value)) (\<lambda>(value, h4).
     bindM (shuffle_rehash X c h4) (\<lambda>(value, h5).
     bindM (trim_multiply c h5) (\<lambda>value.
     lift (final_reduce_elided X c value))))))))))"

definition pipeline_elided :: "hashlib \<Rightarrow> int \<Rightarrow> config \<Rightarrow> int io" where
  "pipeline_elided X initial_value c =
     for_range (nat (loops c)) (pipeline_pass_elided X c) initial_value"

subsection \<open>Configurations the specification calls valid\<close>

text \<open>
  Positive loop and repetition counts and even positive hash lengths, and for a valid
  configuration a nonzero final divisor as well. The number of characters to delete is
  not constrained.
\<close>

definition valid_shape :: "config \<Rightarrow> bool" where
  "valid_shape c \<longleftrightarrow>
     0 < loops c \<and> 0 < mul_times c \<and> 0 < add_times c \<and> 0 < hash1_loops c \<and>
     0 < hash1_len c \<and> even (hash1_len c) \<and>
     0 < hash2_len c \<and> even (hash2_len c) \<and>
     0 < hash4_len c \<and> even (hash4_len c)"

definition valid_config :: "config \<Rightarrow> bool" where
  "valid_config c \<longleftrightarrow> valid_shape c \<and> final_div c \<noteq> 0"

text \<open>The three digest lengths of a configuration are within reach of the library.\<close>

definition lengths_fit :: "hashlib \<Rightarrow> config \<Rightarrow> bool" where
  "lengths_fit X c \<longleftrightarrow>
     digest_fits X (hash1_len c) \<and> digest_fits X (hash2_len c) \<and> digest_fits X (hash4_len c)"

subsection \<open>Concrete inputs for evaluation\<close>

text \<open>
  A fixed stand-in for the hash library (with room for digests of up to \<open>2 ^ 32\<close> bytes)
  and fixed feeds for the two generators; they serve to run the model on concrete
  configurations.
\<close>

definition demo_xof :: hashlib where
  "demo_xof = \<lparr>stream = (\<lambda>v data i.
                  case v of Shake128 \<Rightarrow> of_nat (length data + 7 * i + 1)
                          | Shake256 \<Rightarrow> of_nat (3 * length data + 11 * i + 160)),
               capacity = 2 ^ 32\<rparr>"

definition demo_rng :: rng where
  "demo_rng = \<lparr>secrets_feed = (\<lambda>i. 5 * i + 2), secrets_used = 0,
               random_feed = (\<lambda>i. i + 1), random_used = 0\<rparr>"

text \<open>The default values of the parameters of \<^verbatim>\<open>pipeline\<close> (lines 78 to 86).\<close>

definition default_config :: config where
  "default_config = \<lparr>loops = 1, mul_times = 1, add_times = 1, hash1_len = 1024,
                     hash1_loops = 10, hash2_len = 512, remove_chars = 10, hash4_len = 2048,
                     final_div = 8\<rparr>"

definition small_config :: config where
  "small_config = \<lparr>loops = 1, mul_times = 1, add_times = 1, hash1_len = 4, hash1_loops = 1,
                   hash2_len = 2, remove_chars = 1, hash4_len = 2, final_div = 8\<rparr>"

section \<open>Basic facts\<close>

lemma bindE_Inl [simp]: "bindE (Inl e) f = Inl e"
  by (simp add: bindE_def)

lemma bindE_Inr [simp]: "bindE (Inr x) f = f x"
  by (simp add: bindE_def)

lemma ret_apply [simp]: "ret x st = (Inr x, st)"
  by (simp add: ret_def)

lemma lift_apply [simp]: "lift r st = (r, st)"
  by (simp add: lift_def)

lemma bindM_Inr: "m st = (Inr x, st') \<Longrightarrow> bindM m f st = f x st'"
  by (simp add: bindM_def)

lemma bindM_Inl: "m st = (Inl e, st') \<Longrightarrow> bindM m f st = (Inl e, st')"
  by (simp add: bindM_def)

lemma bindM_lift_Inr [simp]: "bindM (lift (Inr x)) f = f x"
  by (simp add: bindM_def fun_eq_iff)

lemma bindM_lift_Inl [simp]: "bindM (lift (Inl e)) f st = (Inl e, st)"
  by (simp add: bindM_def)

lemma bindM_ret [simp]: "bindM (ret x) f = f x"
  by (simp add: bindM_def fun_eq_iff)

subsection \<open>Hex digits\<close>

lemma hex_digit_mem: "d < 16 \<Longrightarrow> hex_digit d \<in> set hexdigits"
  unfolding hex_digit_def by (rule nth_mem) (simp add: hexdigits_def)

lemma length_hexlify: "length (hexlify bs) = 2 * length bs"
  by (induction bs) (simp_all add: hexlify_def)

lemma unat_byte_div16: "unat (b :: byte) div 16 < 16"
proof -
  have "unat b < 256" using unsigned_less [of b, where ?'a = nat] by simp
  then show ?thesis by simp
qed

lemma lower_hex_hexlify: "lower_hex (hexlify bs)"
  by (induction bs) (simp_all add: hexlify_def lower_hex_def hex_digit_mem unat_byte_div16)

lemma hexlify_eq_Nil [simp]: "hexlify bs = [] \<longleftrightarrow> bs = []"
  by (cases bs) (simp_all add: hexlify_def)

lemma hex_val_lower: "c \<in> set hexdigits \<Longrightarrow> \<exists>d. hex_val c = Some d"
  by (auto simp: hexdigits_def hex_val_def)

lemma hex_digits_value_lower:
  "set s \<subseteq> set hexdigits \<Longrightarrow> \<exists>n. hex_digits_value acc s = Some n"
proof (induction s arbitrary: acc)
  case Nil
  show ?case by simp
next
  case (Cons c cs)
  from Cons.prems obtain d where "hex_val c = Some d"
    using hex_val_lower [of c] by auto
  with Cons show ?case by simp
qed

lemma int16_Nil: "int16 [] = Inl ValueError"
  by (simp add: int16_def)

lemma int16_lower_hex:
  assumes "lower_hex s" and "s \<noteq> []"
  shows "\<exists>v. int16 s = Inr v \<and> 0 \<le> v"
proof -
  from assms(1) obtain n where "hex_digits_value 0 s = Some n"
    using hex_digits_value_lower [of s 0] by (auto simp: lower_hex_def)
  with assms(2) show ?thesis by (simp add: int16_def)
qed

lemma fromhex_lower_hex:
  "lower_hex s \<Longrightarrow> even (length s) \<Longrightarrow> \<exists>bs. fromhex s = Inr bs \<and> length bs = length s div 2"
proof (induction s rule: fromhex.induct)
  case 1
  show ?case by simp
next
  case (2 c)
  then show ?case by simp
next
  case (3 a b cs)
  from "3.prems" obtain h l where hl: "hex_val a = Some h" "hex_val b = Some l"
    using hex_val_lower [of a] hex_val_lower [of b] by (auto simp: lower_hex_def)
  from "3.prems" have "lower_hex cs" "even (length cs)" by (simp_all add: lower_hex_def)
  with "3.IH" hl obtain bs where "fromhex cs = Inr bs" "length bs = length cs div 2"
    by blast
  with hl show ?case by simp
qed

subsection \<open>Bit length and the big-endian encoding\<close>

lemma nat_bit_length_0 [simp]: "nat_bit_length 0 = 0"
  by (simp add: nat_bit_length.simps)

lemma nat_bit_length_pos: "0 < n \<Longrightarrow> nat_bit_length n = Suc (nat_bit_length (n div 2))"
  by (subst nat_bit_length.simps) simp

lemma nat_bit_length_upper: "n < 2 ^ nat_bit_length n"
proof (induction n rule: nat_bit_length.induct)
  case (1 n)
  show ?case
  proof (cases "n = 0")
    case True
    then show ?thesis by simp
  next
    case False
    with 1 have "n div 2 < 2 ^ nat_bit_length (n div 2)" by simp
    then have "n < 2 * 2 ^ nat_bit_length (n div 2)" by linarith
    with False show ?thesis by (simp add: nat_bit_length_pos)
  qed
qed

lemma nat_bit_length_lower: "0 < n \<Longrightarrow> 2 ^ (nat_bit_length n - 1) \<le> n"
proof (induction n rule: nat_bit_length.induct)
  case (1 n)
  show ?case
  proof (cases "n div 2 = 0")
    case True
    with "1.prems" have "n = 1" by linarith
    then show ?thesis by (simp add: nat_bit_length_pos)
  next
    case False
    with 1 have "2 ^ (nat_bit_length (n div 2) - 1) \<le> n div 2" by simp
    moreover from False have "0 < nat_bit_length (n div 2)"
      by (simp add: nat_bit_length_pos)
    ultimately have "2 ^ nat_bit_length (n div 2) \<le> 2 * (n div 2)"
      by (cases "nat_bit_length (n div 2)") simp_all
    also have "\<dots> \<le> n" by simp
    finally show ?thesis using "1.prems" by (simp add: nat_bit_length_pos)
  qed
qed

lemma pow256: "(256::nat) ^ n = 2 ^ (8 * n)"
  by (simp add: power_mult)

lemma fits_byte_len: "n < 256 ^ ((nat_bit_length n + 7) div 8)"
proof -
  have "n < 2 ^ nat_bit_length n" by (rule nat_bit_length_upper)
  also have "(2::nat) ^ nat_bit_length n \<le> 2 ^ (8 * ((nat_bit_length n + 7) div 8))"
    by (rule power_increasing) simp_all
  finally show ?thesis by (simp add: pow256)
qed

lemma to_bytes_byte_len:
  assumes "0 \<le> v"
  shows "to_bytes v (byte_len v) = Inr (be_bytes (nat v) (byte_len v))"
proof -
  have "nat v < 256 ^ ((nat_bit_length (nat v) + 7) div 8)" by (rule fits_byte_len)
  also have "\<dots> \<le> 256 ^ byte_len v"
    using assms by (intro power_increasing) (simp_all add: byte_len_def bit_length_def)
  finally have "nat v < 256 ^ byte_len v" .
  then have "v < 256 ^ byte_len v" using assms
    by (metis nat_less_iff of_nat_numeral of_nat_power)
  with assms show ?thesis by (simp add: to_bytes_def)
qed

lemma length_be_bytes [simp]: "length (be_bytes v n) = n"
  by (induction v n rule: be_bytes.induct) simp_all

lemma from_bytes_snoc: "from_bytes (bs @ [b]) = 256 * from_bytes bs + unat b"
  by (simp add: from_bytes_def)

lemma unat_byte_of_nat: "unat (of_nat k :: byte) = k mod 256"
  by (simp add: unat_of_nat)

lemma from_bytes_be_bytes: "v < 256 ^ n \<Longrightarrow> from_bytes (be_bytes v n) = v"
proof (induction v n rule: be_bytes.induct)
  case (1 v)
  then show ?case by (simp add: from_bytes_def)
next
  case (2 v n)
  from "2.prems" have "v div 256 < 256 ^ n"
    by (simp add: less_mult_imp_div_less mult.commute)
  with "2.IH" show ?case by (simp add: from_bytes_snoc unat_byte_of_nat)
qed

lemma hd_be_bytes: "256 ^ n \<le> v \<Longrightarrow> v < 256 ^ Suc n \<Longrightarrow> hd (be_bytes v (Suc n)) \<noteq> 0"
proof (induction n arbitrary: v)
  case 0
  then have u: "unat (of_nat v :: byte) = v" by (simp add: unat_byte_of_nat)
  have "(of_nat v :: byte) \<noteq> 0"
  proof
    assume "(of_nat v :: byte) = 0"
    then have "unat (of_nat v :: byte) = 0" by simp
    with u 0 show False by simp
  qed
  moreover from 0 have "v mod 256 = v" by simp
  ultimately show ?case by simp
next
  case (Suc n)
  from Suc.prems have "256 ^ n \<le> v div 256" "v div 256 < 256 ^ Suc n"
    by (simp_all add: less_mult_imp_div_less mult.commute less_eq_div_iff_mult_less_eq)
  from Suc.IH [OF this] have "hd (be_bytes (v div 256) (Suc n)) \<noteq> 0" .
  moreover have "be_bytes (v div 256) (Suc n) \<noteq> []"
    by (metis length_be_bytes length_0_conv nat.distinct(1))
  ultimately show ?case by (simp del: be_bytes.simps(2) add: be_bytes.simps(2) [of v "Suc n"])
qed

lemma byte_len_pos: "0 < v \<Longrightarrow> byte_len v = (bit_length v + 7) div 8"
  by (simp add: byte_len_def bit_length_def nat_bit_length_pos)

lemma byte_len_lower:
  assumes "0 < v"
  shows "256 ^ (byte_len v - 1) \<le> nat v"
proof -
  from assms have pos: "0 < nat v" by simp
  have bl: "0 < nat_bit_length (nat v)" using pos by (simp add: nat_bit_length_pos)
  have "8 * (byte_len v - 1) \<le> nat_bit_length (nat v) - 1"
    using assms bl by (simp add: byte_len_pos bit_length_def)
  then have "(2::nat) ^ (8 * (byte_len v - 1)) \<le> 2 ^ (nat_bit_length (nat v) - 1)"
    by (intro power_increasing) simp_all
  also have "\<dots> \<le> nat v" using pos by (rule nat_bit_length_lower)
  finally show ?thesis by (simp add: pow256)
qed

section \<open>The hash wrapper, the encoding and the trivial runs\<close>

lemma length_squeeze [simp]: "length (squeeze out n) = n"
  by (simp add: squeeze_def)

lemma hexdigest_fits:
  assumes "0 \<le> m" and "m < 2 ^ 63" and "nat m \<le> cap"
  shows "hexdigest cap out m = Inr (hexlify (squeeze out (nat m)))"
proof -
  from assms(1) have "\<not> m < - (2 ^ 63)" by simp
  with assms show ?thesis by (simp add: hexdigest_def)
qed

lemma shake_hash_fits:
  assumes "0 \<le> n" and "digest_fits X n"
  shows "shake_hash X data n alg =
     Inr (hexlify (squeeze (stream X (if alg = ''shake_128'' then Shake128 else Shake256) data)
            (nat (n div 2))))"
proof -
  from assms(1) have "0 \<le> n div 2" by simp
  moreover from assms(2) have "n div 2 < 2 ^ 63" "nat (n div 2) \<le> capacity X"
    by (simp_all add: digest_fits_def)
  ultimately show ?thesis by (simp add: shake_hash_def hexdigest_fits)
qed

lemma shake_hash_Inr:
  assumes "shake_hash X data n alg = Inr h"
  shows "0 \<le> n" and "digest_fits X n"
proof -
  from assms have b: "0 \<le> n div 2 \<and> n div 2 < 2 ^ 63 \<and> nat (n div 2) \<le> capacity X"
    by (auto simp: shake_hash_def hexdigest_def Let_def split: if_splits)
  then show "digest_fits X n" by (simp add: digest_fits_def)
  from b show "0 \<le> n" by simp
qed

lemma shake_hash_too_long:
  assumes "0 \<le> n" and "\<not> digest_fits X n"
  shows "shake_hash X data n alg = Inl OverflowError \<or> shake_hash X data n alg = Inl MemoryError"
proof -
  from assms(1) have "0 \<le> n div 2" by simp
  with assms(2) show ?thesis
    by (auto simp: shake_hash_def hexdigest_def digest_fits_def Let_def)
qed

lemma shake_hash_overflow:
  assumes "2 ^ 64 \<le> n"
  shows "shake_hash X data n alg = Inl OverflowError"
proof -
  from assms have "2 ^ 63 \<le> n div 2" by simp
  then show ?thesis by (simp add: shake_hash_def hexdigest_def Let_def)
qed

lemma demo_fits [simp]:
  assumes "0 \<le> n" and "n \<le> 4096"
  shows "digest_fits demo_xof n"
proof -
  from assms have "n div 2 \<le> 2048" by simp
  then have "n div 2 < 2 ^ 63" "nat (n div 2) \<le> 2 ^ 32" by simp_all
  then show ?thesis by (simp add: digest_fits_def demo_xof_def)
qed

text \<open>
  Claim C5. The encoding used before every hash step, \<open>to_bytes v (byte_len v)\<close>, is the
  minimal big-endian encoding: zero is the single byte \<open>0\<close>, and a positive \<open>v\<close> is encoded
  without error in \<open>\<lceil>bit_length v / 8\<rceil>\<close> bytes (the number \<open>n\<close> of bytes with
  \<open>bit_length v \<le> 8 n < bit_length v + 8\<close>), the first of which is not zero, and reading
  the bytes back most significant first gives \<open>v\<close> again.
\<close>

theorem byte_encoding_minimal:
  "to_bytes 0 (byte_len 0) = Inr [0] \<and>
   (0 < v \<longrightarrow> (\<exists>bs. to_bytes v (byte_len v) = Inr bs \<and>
       bit_length v \<le> 8 * length bs \<and> 8 * length bs < bit_length v + 8 \<and>
       hd bs \<noteq> 0 \<and> int (from_bytes bs) = v))"
proof
  show "to_bytes 0 (byte_len 0) = Inr [0]"
    by (simp add: to_bytes_def byte_len_def bit_length_def)
next
  show "0 < v \<longrightarrow> (\<exists>bs. to_bytes v (byte_len v) = Inr bs \<and>
       bit_length v \<le> 8 * length bs \<and> 8 * length bs < bit_length v + 8 \<and>
       hd bs \<noteq> 0 \<and> int (from_bytes bs) = v)"
  proof
    assume pos: "0 < v"
    let ?n = "byte_len v"
    let ?bs = "be_bytes (nat v) ?n"
    have enc: "to_bytes v ?n = Inr ?bs" using pos by (simp add: to_bytes_byte_len)
    have n: "?n = (bit_length v + 7) div 8" using pos by (rule byte_len_pos)
    have npos: "0 < ?n" by (simp add: byte_len_def)
    have upper: "nat v < 256 ^ ?n"
    proof -
      have "nat v < 256 ^ ((nat_bit_length (nat v) + 7) div 8)" by (rule fits_byte_len)
      then show ?thesis using pos by (simp add: n bit_length_def)
    qed
    have lower: "256 ^ (?n - 1) \<le> nat v" using pos by (rule byte_len_lower)
    have "hd (be_bytes (nat v) (Suc (?n - 1))) \<noteq> 0"
      using lower upper npos by (intro hd_be_bytes) simp_all
    then have hd: "hd ?bs \<noteq> 0" using npos by simp
    have rt: "int (from_bytes ?bs) = v"
      using upper pos by (simp add: from_bytes_be_bytes)
    have "bit_length v \<le> 8 * ?n" "8 * ?n < bit_length v + 8"
      unfolding n by presburger+
    with enc hd rt show "\<exists>bs. to_bytes v (byte_len v) = Inr bs \<and>
       bit_length v \<le> 8 * length bs \<and> 8 * length bs < bit_length v + 8 \<and>
       hd bs \<noteq> 0 \<and> int (from_bytes bs) = v"
      by simp
  qed
qed

theorem byte_encoding_minimal_witness:
  "to_bytes 0 (byte_len 0) = Inr [0] \<and> (0::int) < 65536 \<and>
   (\<exists>bs. to_bytes 65536 (byte_len 65536) = Inr bs \<and>
       bit_length 65536 \<le> 8 * length bs \<and> 8 * length bs < bit_length 65536 + 8 \<and>
       hd bs \<noteq> 0 \<and> int (from_bytes bs) = 65536)"
  using byte_encoding_minimal [of 65536] by simp

text \<open>
  Claim C6, amended. For an even positive number \<open>n\<close> of hex characters whose byte count
  \<open>n div 2\<close> the library can take (below \<open>2 ^ 63\<close> and within what the platform
  allocates), for any input bytes and either variant, \<open>shake_hash\<close> returns without error
  the hex print of the first \<open>n div 2\<close> bytes of the primitive's output: a string of
  exactly \<open>n\<close> lowercase hexadecimal digits.
\<close>

theorem shake_hash_even_length:
  assumes "0 < n" and "even n" and "digest_fits X n"
  shows "\<exists>d. shake_hash X data n alg = Inr d \<and>
           d = hexlify (squeeze (stream X (if alg = ''shake_128'' then Shake128 else Shake256) data)
                          (nat (n div 2))) \<and>
           int (length d) = n \<and> lower_hex d"
  using assms by (simp add: shake_hash_fits length_hexlify lower_hex_hexlify)

theorem shake_hash_even_length_witness:
  "(0::int) < 64 \<and> even (64::int) \<and> digest_fits demo_xof 64 \<and>
   (\<exists>d. shake_hash demo_xof [1, 2, 3] 64 ''shake_128'' = Inr d \<and>
        d = hexlify (squeeze (stream demo_xof
                       (if ''shake_128'' = ''shake_128'' then Shake128 else Shake256)
                       [1, 2, 3]) (nat (64 div 2))) \<and>
        int (length d) = 64 \<and> lower_hex d)"
  using shake_hash_even_length [of 64 demo_xof "[1, 2, 3]" "''shake_128''"] by simp

text \<open>
  The claim as stated fails: \<open>2 ^ 64\<close> is even and positive, and the byte count
  \<open>2 ^ 63\<close> is not a signed 64-bit size, so \<^verbatim>\<open>hexdigest\<close> raises \<^verbatim>\<open>OverflowError\<close>.
\<close>

theorem shake_hash_even_length_counterexample:
  "(0::int) < 18446744073709551616 \<and> even (18446744073709551616::int) \<and>
   shake_hash demo_xof [1, 2, 3] 18446744073709551616 ''shake_256'' = Inl OverflowError"
  by (simp add: shake_hash_overflow)

text \<open>
  Claim C7, amended. For an odd number \<open>n\<close> of hex characters (a positive count) whose
  byte count the library can take, the byte count is the floor of \<open>n / 2\<close>, so the digest
  returned has exactly \<open>n - 1\<close> characters.
\<close>

theorem shake_hash_odd_length:
  assumes "0 < n" and "odd n" and "digest_fits X n"
  shows "\<exists>d. shake_hash X data n alg = Inr d \<and>
           d = hexlify (squeeze (stream X (if alg = ''shake_128'' then Shake128 else Shake256) data)
                          (nat (n div 2))) \<and>
           int (length d) = n - 1"
proof -
  from assms(2) have "2 * (n div 2) = n - 1" by presburger
  with assms(1,3) show ?thesis by (simp add: shake_hash_fits length_hexlify)
qed

theorem shake_hash_odd_length_witness:
  "(0::int) < 5 \<and> odd (5::int) \<and> digest_fits demo_xof 5 \<and>
   (\<exists>d. shake_hash demo_xof [] 5 ''shake_256'' = Inr d \<and>
        d = hexlify (squeeze (stream demo_xof
                       (if ''shake_256'' = ''shake_128'' then Shake128 else Shake256)
                       []) (nat (5 div 2))) \<and>
        int (length d) = 5 - 1)"
  using shake_hash_odd_length [of 5 demo_xof "[]" "''shake_256''"] by simp

text \<open>
  The claim as stated fails: for the odd count \<open>2 ^ 64 + 1\<close> the byte count is \<open>2 ^ 63\<close>
  and \<^verbatim>\<open>hexdigest\<close> raises \<^verbatim>\<open>OverflowError\<close>; no digest is returned.
\<close>

theorem shake_hash_odd_length_counterexample:
  "(0::int) < 18446744073709551617 \<and> odd (18446744073709551617::int) \<and>
   shake_hash demo_xof [] 18446744073709551617 ''shake_128'' = Inl OverflowError"
  by (simp add: shake_hash_overflow)

text \<open>
  Claim C9. With a repetition count of zero, \<open>multiply_by_random\<close> and \<open>add_random\<close>
  return their argument and leave both generators untouched, and so does step 1 followed
  by step 2 of a pass.
\<close>

theorem repeat_zero_identity:
  "multiply_by_random v 0 st = (Inr v, st) \<and> add_random v 0 st = (Inr v, st) \<and>
   bindM (multiply_by_random v 0) (\<lambda>value. add_random value 0) st = (Inr v, st)"
  by (simp add: multiply_by_random_def add_random_def bindM_def)

theorem repeat_zero_identity_witness:
  "multiply_by_random 1 0 demo_rng = (Inr 1, demo_rng) \<and>
   add_random 1 0 demo_rng = (Inr 1, demo_rng) \<and>
   bindM (multiply_by_random 1 0) (\<lambda>value. add_random value 0) demo_rng = (Inr 1, demo_rng)"
  using repeat_zero_identity [of 1 demo_rng] by simp

text \<open>
  Claim C10. With \<open>loops \<le> 0\<close> the pipeline checks nothing and runs no pass: it returns
  the initial value as it is, whatever the other parameters are, and draws no random
  number. The result is then outside \<open>[0, 255]\<close> whenever the initial value is.
\<close>

theorem pipeline_without_loops:
  assumes "loops c \<le> 0"
  shows "pipeline X v c st = (Inr v, st)"
  using assms by (simp add: pipeline_def)

theorem pipeline_without_loops_witness:
  "loops (small_config\<lparr>loops := - 3, final_div := 0\<rparr>) \<le> 0 \<and>
   pipeline demo_xof 1000 (small_config\<lparr>loops := - 3, final_div := 0\<rparr>) demo_rng
     = (Inr 1000, demo_rng) \<and> \<not> (1000::int) \<le> 255"
  using pipeline_without_loops [of "small_config\<lparr>loops := - 3, final_div := 0\<rparr>" demo_xof 1000 demo_rng]
  by (simp add: small_config_def)

lemma final_reduce_elided_eq:
  "final_div c \<noteq> 0 \<Longrightarrow> final_reduce_elided X c = final_reduce X c"
  by (simp add: final_reduce_elided_def final_reduce_def floordiv_def fun_eq_iff)

text \<open>
  Claim C4. For a nonzero \<open>final_div\<close> the pipeline without the division of line 136
  computes, on the same feeds of random draws and for every seed, exactly what the
  pipeline computes: the same result or the same exception, and the same draws consumed.
\<close>

theorem division_is_dead_work:
  assumes "final_div c \<noteq> 0"
  shows "pipeline_elided X v c st = pipeline X v c st"
proof -
  from assms have "pipeline_pass_elided X c = pipeline_pass X c"
    by (simp add: pipeline_pass_elided_def pipeline_pass_def final_reduce_elided_eq fun_eq_iff)
  then show ?thesis by (simp add: pipeline_elided_def pipeline_def)
qed

theorem division_is_dead_work_witness:
  "final_div small_config \<noteq> 0 \<and>
   pipeline_elided demo_xof 1 small_config demo_rng = pipeline demo_xof 1 small_config demo_rng"
  using division_is_dead_work [of small_config demo_xof 1 demo_rng]
  by (simp add: small_config_def)

section \<open>The steps of a pass succeed\<close>

text \<open>The model of \<^verbatim>\<open>math.isqrt\<close> computes the integer square root.\<close>

lemma isqrt_correct: "isqrt n * isqrt n \<le> n \<and> n < (isqrt n + 1) * (isqrt n + 1)"
proof (induction n rule: isqrt.induct)
  case (1 n)
  show ?case
  proof (cases "n < 2")
    case True
    then show ?thesis by (subst (1 2 3 4) isqrt.simps) auto
  next
    case False
    let ?q = "isqrt (n div 4)"
    from 1 False have IH: "?q * ?q \<le> n div 4" "n div 4 < (?q + 1) * (?q + 1)" by simp_all
    have lo: "(2 * ?q) * (2 * ?q) \<le> n"
    proof -
      have "(2 * ?q) * (2 * ?q) = 4 * (?q * ?q)" by simp
      also have "\<dots> \<le> 4 * (n div 4)" using IH(1) by simp
      also have "\<dots> \<le> n" by simp
      finally show ?thesis .
    qed
    have hi: "n < (2 * ?q + 2) * (2 * ?q + 2)"
    proof -
      from IH(2) have "n div 4 + 1 \<le> (?q + 1) * (?q + 1)" by simp
      then have "4 * (n div 4 + 1) \<le> 4 * ((?q + 1) * (?q + 1))" by simp
      moreover have "n < 4 * (n div 4 + 1)" by simp
      moreover have "4 * ((?q + 1) * (?q + 1)) = (2 * ?q + 2) * (2 * ?q + 2)" by simp
      ultimately show ?thesis by linarith
    qed
    show ?thesis
    proof (cases "(2 * ?q + 1) * (2 * ?q + 1) \<le> n")
      case True
      with False have "isqrt n = 2 * ?q + 1" by (subst isqrt.simps) (simp add: Let_def)
      with True hi show ?thesis by (simp add: algebra_simps)
    next
      case F: False
      with False have "isqrt n = 2 * ?q" by (subst isqrt.simps) (simp add: Let_def)
      with F lo show ?thesis by (simp add: algebra_simps)
    qed
  qed
qed

subsection \<open>The loops that draw random numbers\<close>

lemma secrets_randbelow_pos:
  "0 < n \<Longrightarrow> secrets_randbelow n st =
     (Inr (int (secrets_feed st (secrets_used st)) mod n), st\<lparr>secrets_used := Suc (secrets_used st)\<rparr>)"
  by (simp add: secrets_randbelow_def)

lemma multiply_loop:
  "0 \<le> v \<Longrightarrow> \<exists>v'. for_range k (\<lambda>value. bindM (secrets_randbelow (2 ^ 32)) (\<lambda>r. ret (value * (r + 1)))) v st
      = (Inr v', st\<lparr>secrets_used := secrets_used st + k\<rparr>) \<and> 0 \<le> v'"
proof (induction k arbitrary: v st)
  case 0
  then show ?case by simp
next
  case (Suc k)
  let ?r = "int (secrets_feed st (secrets_used st)) mod 2 ^ 32"
  let ?st = "st\<lparr>secrets_used := Suc (secrets_used st)\<rparr>"
  have "0 \<le> v * (?r + 1)" using Suc.prems by simp
  from Suc.IH [OF this, of ?st] obtain v' where
    "for_range k (\<lambda>value. bindM (secrets_randbelow (2 ^ 32)) (\<lambda>r. ret (value * (r + 1)))) (v * (?r + 1)) ?st
       = (Inr v', ?st\<lparr>secrets_used := secrets_used ?st + k\<rparr>)" "0 \<le> v'"
    by blast
  then show ?case by (simp add: bindM_def secrets_randbelow_pos)
qed

lemma multiply_by_random_ok:
  "0 \<le> v \<Longrightarrow> \<exists>v'. multiply_by_random v t st
      = (Inr v', st\<lparr>secrets_used := secrets_used st + nat t\<rparr>) \<and> 0 \<le> v'"
  unfolding multiply_by_random_def by (rule multiply_loop)

lemma add_loop:
  "0 \<le> v \<Longrightarrow> \<exists>v'. for_range k (\<lambda>value. bindM (secrets_randbelow (2 ^ 32)) (\<lambda>r. ret (value + r))) v st
      = (Inr v', st\<lparr>secrets_used := secrets_used st + k\<rparr>) \<and> 0 \<le> v'"
proof (induction k arbitrary: v st)
  case 0
  then show ?case by simp
next
  case (Suc k)
  let ?r = "int (secrets_feed st (secrets_used st)) mod 2 ^ 32"
  let ?st = "st\<lparr>secrets_used := Suc (secrets_used st)\<rparr>"
  have "0 \<le> v + ?r" using Suc.prems by simp
  from Suc.IH [OF this, of ?st] obtain v' where
    "for_range k (\<lambda>value. bindM (secrets_randbelow (2 ^ 32)) (\<lambda>r. ret (value + r))) (v + ?r) ?st
       = (Inr v', ?st\<lparr>secrets_used := secrets_used ?st + k\<rparr>)" "0 \<le> v'"
    by blast
  then show ?case by (simp add: bindM_def secrets_randbelow_pos)
qed

lemma add_random_ok:
  "0 \<le> v \<Longrightarrow> \<exists>v'. add_random v t st
      = (Inr v', st\<lparr>secrets_used := secrets_used st + nat t\<rparr>) \<and> 0 \<le> v'"
  unfolding add_random_def by (rule add_loop)

lemma pop_at_ok:
  "0 \<le> idx \<Longrightarrow> idx < int (length lst) \<Longrightarrow>
     \<exists>lst'. pop_at lst idx = Inr lst' \<and> length lst' = length lst - 1 \<and> set lst' \<subseteq> set lst"
proof -
  assume a: "0 \<le> idx" "idx < int (length lst)"
  have "set (take (nat idx) lst @ drop (Suc (nat idx)) lst) \<subseteq> set lst"
    using set_take_subset [of "nat idx" lst] set_drop_subset [of "Suc (nat idx)" lst] by auto
  moreover have "length (take (nat idx) lst @ drop (Suc (nat idx)) lst) = length lst - 1"
    using a by auto
  ultimately show ?thesis using a by (simp add: pop_at_def)
qed

lemma remove_loop:
  "k \<le> length s \<Longrightarrow>
   \<exists>s'. for_range k (\<lambda>lst. bindM (secrets_randbelow (int (length lst))) (\<lambda>idx. lift (pop_at lst idx))) s st
      = (Inr s', st\<lparr>secrets_used := secrets_used st + k\<rparr>) \<and>
        length s' = length s - k \<and> set s' \<subseteq> set s"
proof (induction k arbitrary: s st)
  case 0
  then show ?case by simp
next
  case (Suc k)
  let ?body = "\<lambda>lst. bindM (secrets_randbelow (int (length lst))) (\<lambda>idx. lift (pop_at lst idx))"
  let ?idx = "int (secrets_feed st (secrets_used st)) mod int (length s)"
  let ?st = "st\<lparr>secrets_used := Suc (secrets_used st)\<rparr>"
  from Suc.prems have pos: "0 < int (length s)" by (cases s) simp_all
  then have "0 \<le> ?idx" "?idx < int (length s)" by simp_all
  from pop_at_ok [OF this] obtain s1 where
    s1: "pop_at s ?idx = Inr s1" "length s1 = length s - 1" "set s1 \<subseteq> set s" by blast
  have step: "?body s st = (Inr s1, ?st)"
    using pos s1(1) by (simp add: bindM_def secrets_randbelow_pos)
  from Suc.prems s1(2) have "k \<le> length s1" by simp
  from Suc.IH [OF this, of ?st] obtain s' where
    s': "for_range k ?body s1 ?st = (Inr s', ?st\<lparr>secrets_used := secrets_used ?st + k\<rparr>)"
      "length s' = length s1 - k" "set s' \<subseteq> set s1"
    by blast
  have "for_range (Suc k) ?body s st = for_range k ?body s1 ?st"
    using step by (simp add: bindM_Inr)
  also have "\<dots> = (Inr s', st\<lparr>secrets_used := secrets_used st + Suc k\<rparr>)"
    using s'(1) by simp
  finally have run: "for_range (Suc k) ?body s st
      = (Inr s', st\<lparr>secrets_used := secrets_used st + Suc k\<rparr>)" .
  have "length s' = length s - Suc k" using s'(2) s1(2) by simp
  moreover have "set s' \<subseteq> set s" using s'(3) s1(3) by blast
  ultimately show ?case using run by blast
qed

lemma remove_random_chars_ok:
  "\<exists>s'. remove_random_chars s n st
      = (Inr s', st\<lparr>secrets_used := secrets_used st + nat (min n (int (length s)))\<rparr>) \<and>
        length s' = length s - nat (min n (int (length s))) \<and> set s' \<subseteq> set s"
  unfolding remove_random_chars_def by (rule remove_loop) simp

lemma random_randbelow_pos:
  "0 < n \<Longrightarrow> random_randbelow n st =
     (Inr (random_feed st (random_used st) mod n), st\<lparr>random_used := Suc (random_used st)\<rparr>)"
  by (simp add: random_randbelow_def)

lemma shuffle_down_ok:
  "k \<le> length x - 1 \<Longrightarrow>
   \<exists>x'. shuffle_down k x st = (Inr x', st\<lparr>random_used := random_used st + k\<rparr>) \<and> mset x' = mset x"
proof (induction k arbitrary: x st)
  case 0
  then show ?case by simp
next
  case (Suc k)
  let ?j = "random_feed st (random_used st) mod (Suc k + 1)"
  let ?x = "x[Suc k := x ! ?j, ?j := x ! Suc k]"
  let ?st = "st\<lparr>random_used := Suc (random_used st)\<rparr>"
  from Suc.prems have i: "Suc k < length x" by simp
  have "?j < Suc k + 1" by (rule mod_less_divisor) simp
  with i have j: "?j < length x" by linarith
  have m: "mset ?x = mset x" using j i by (rule mset_swap)
  from Suc.prems have "k \<le> length ?x - 1" by simp
  from Suc.IH [OF this, of ?st] obtain x' where
    "shuffle_down k ?x ?st = (Inr x', ?st\<lparr>random_used := random_used ?st + k\<rparr>)" "mset x' = mset ?x"
    by blast
  with m show ?case by (simp add: bindM_def random_randbelow_pos)
qed

lemma shuffle_string_ok:
  "\<exists>s'. shuffle_string s st = (Inr s', st\<lparr>random_used := random_used st + (length s - 1)\<rparr>) \<and>
         mset s' = mset s"
  unfolding shuffle_string_def by (rule shuffle_down_ok) simp

subsection \<open>The hash steps\<close>

lemma lower_hex_rev [simp]: "lower_hex (rev s) = lower_hex s"
  by (simp add: lower_hex_def)

lemma lower_hex_take: "lower_hex s \<Longrightarrow> lower_hex (take n s)"
  using set_take_subset [of n s] by (auto simp: lower_hex_def)

lemma lower_hex_subset: "lower_hex s \<Longrightarrow> set s' \<subseteq> set s \<Longrightarrow> lower_hex s'"
  by (auto simp: lower_hex_def)

lemma squeeze_eq_Nil [simp]: "squeeze out n = [] \<longleftrightarrow> n = 0"
  by (simp add: squeeze_def)

lemma encode_hash:
  assumes "0 \<le> v" and "0 \<le> n" and "digest_fits X n"
  shows "bindE (to_bytes v (byte_len v)) (\<lambda>bs. bindE (shake_hash X bs n alg) K)
    = K (hexlify (squeeze (stream X (if alg = ''shake_128'' then Shake128 else Shake256)
                            (be_bytes (nat v) (byte_len v))) (nat (n div 2))))"
  using assms by (simp add: to_bytes_byte_len shake_hash_fits)

lemma encode_hash_too_long:
  assumes "0 \<le> v" and "0 \<le> n" and "\<not> digest_fits X n"
  shows "\<exists>e. bindE (to_bytes v (byte_len v)) (\<lambda>bs. bindE (shake_hash X bs n alg) K) = Inl e \<and>
           e \<noteq> ValueError"
proof -
  from shake_hash_too_long [OF assms(2,3), of "be_bytes (nat v) (byte_len v)" alg]
  have "\<exists>e. shake_hash X (be_bytes (nat v) (byte_len v)) n alg = Inl e \<and> e \<noteq> ValueError"
    by auto
  then show ?thesis using assms(1) by (auto simp: to_bytes_byte_len)
qed

lemma hash_step_ok:
  assumes "0 \<le> v" and "2 \<le> n" and "digest_fits X n"
  shows "\<exists>v'. bindE (to_bytes v (byte_len v)) (\<lambda>bs. bindE (shake_hash X bs n alg) (\<lambda>h. int16 h))
           = Inr v' \<and> 0 \<le> v'"
proof -
  let ?h = "hexlify (squeeze (stream X (if alg = ''shake_128'' then Shake128 else Shake256)
                            (be_bytes (nat v) (byte_len v))) (nat (n div 2)))"
  from assms(2) have "?h \<noteq> []" by simp
  then obtain v' where "int16 ?h = Inr v'" "0 \<le> v'"
    using int16_lower_hex [OF lower_hex_hexlify] by blast
  moreover have "bindE (to_bytes v (byte_len v)) (\<lambda>bs. bindE (shake_hash X bs n alg) (\<lambda>h. int16 h))
    = int16 ?h"
    using assms by (intro encode_hash) simp_all
  ultimately show ?thesis by simp
qed

lemma hashing_loop:
  assumes "2 \<le> n" and "digest_fits X n"
  shows "0 \<le> v \<Longrightarrow> \<exists>v'. for_rangeE k
           (\<lambda>value. bindE (to_bytes value (byte_len value)) (\<lambda>bs.
                    bindE (shake_hash X bs n alg) (\<lambda>h. int16 h))) v = Inr v' \<and> 0 \<le> v'"
proof (induction k arbitrary: v)
  case 0
  then show ?case by simp
next
  case (Suc k)
  from hash_step_ok [OF Suc.prems assms, of alg] obtain v1 where
    v1: "bindE (to_bytes v (byte_len v)) (\<lambda>bs. bindE (shake_hash X bs n alg) (\<lambda>h. int16 h)) = Inr v1"
      "0 \<le> v1" by blast
  from Suc.IH [OF v1(2)] v1(1) show ?case by simp
qed

lemma repeated_hashing_ok:
  "0 \<le> v \<Longrightarrow> 2 \<le> n \<Longrightarrow> digest_fits X n \<Longrightarrow>
     \<exists>v'. repeated_hashing X v n k alg = Inr v' \<and> 0 \<le> v'"
  unfolding repeated_hashing_def by (rule hashing_loop)

lemma repeated_hashing_too_long:
  assumes "0 \<le> v" and "0 \<le> n" and "\<not> digest_fits X n" and "0 < k"
  shows "\<exists>e. repeated_hashing X v n k alg = Inl e \<and> e \<noteq> ValueError"
proof -
  from assms(4) obtain j where j: "nat k = Suc j" by (cases "nat k") auto
  from encode_hash_too_long [OF assms(1-3), of alg "\<lambda>h. int16 h"] obtain e where
    "bindE (to_bytes v (byte_len v)) (\<lambda>bs. bindE (shake_hash X bs n alg) (\<lambda>h. int16 h)) = Inl e"
    "e \<noteq> ValueError" by blast
  then show ?thesis by (simp add: repeated_hashing_def j)
qed

text \<open>A digest that step 4 could parse has at least two characters and a length in reach.\<close>

lemma repeated_hashing_once:
  assumes "repeated_hashing X v n 1 alg = Inr v'"
  shows "2 \<le> n" and "digest_fits X n"
proof -
  from assms obtain bs h where h: "shake_hash X bs n alg = Inr h" "int16 h = Inr v'"
    by (auto simp: repeated_hashing_def bindE_def split: sum.splits)
  from h(1) have nn: "0 \<le> n" and fits: "digest_fits X n" by (rule shake_hash_Inr)+
  from h(1) have "h = hexlify (squeeze (stream X (if alg = ''shake_128'' then Shake128 else Shake256) bs)
                          (nat (n div 2)))"
    by (simp add: shake_hash_fits [OF nn fits])
  moreover from h(2) have "h \<noteq> []" by (auto simp: int16_def)
  ultimately have "nat (n div 2) \<noteq> 0" by simp
  then show "2 \<le> n" by linarith
  show "digest_fits X n" by (rule fits)
qed

lemma sqrt_and_divide_ok:
  "0 \<le> v \<Longrightarrow> \<exists>v'. sqrt_and_divide v 4 = Inr v' \<and> 0 \<le> v'"
  by (simp add: sqrt_and_divide_def floordiv_def)

lemma hash_reverse_ok:
  assumes "0 \<le> v" and "2 \<le> hash1_len c" and "digest_fits X (hash1_len c)"
  shows "\<exists>v'. hash_reverse X c v = Inr v' \<and> 0 \<le> v'"
proof -
  let ?h = "hexlify (squeeze (stream X (if ''shake_256'' = ''shake_128'' then Shake128 else Shake256)
                            (be_bytes (nat v) (byte_len v))) (nat (hash1_len c div 2)))"
  from assms(2) have "rev ?h \<noteq> []" by simp
  moreover have "lower_hex (rev ?h)" by (simp add: lower_hex_hexlify)
  ultimately obtain v' where "int16 (rev ?h) = Inr v'" "0 \<le> v'"
    using int16_lower_hex by blast
  moreover have "hash_reverse X c v = int16 (rev ?h)"
    unfolding hash_reverse_def using assms by (intro encode_hash) simp_all
  ultimately show ?thesis by simp
qed

lemma hash_again_ok:
  assumes "0 \<le> v" and "2 \<le> hash1_len c" and "digest_fits X (hash1_len c)"
  shows "\<exists>v' h4. hash_again X c v = Inr (v', h4) \<and> lower_hex h4 \<and>
           length h4 = 2 * nat (hash1_len c div 2)"
proof -
  let ?h = "hexlify (squeeze (stream X (if ''shake_256'' = ''shake_128'' then Shake128 else Shake256)
                            (be_bytes (nat v) (byte_len v))) (nat (hash1_len c div 2)))"
  from assms(2) have "?h \<noteq> []" by simp
  then obtain v' where "int16 ?h = Inr v'"
    using int16_lower_hex [OF lower_hex_hexlify] by blast
  moreover have "hash_again X c v = bindE (int16 ?h) (\<lambda>value. Inr (value, ?h))"
    unfolding hash_again_def using assms by (intro encode_hash) simp_all
  ultimately have "hash_again X c v = Inr (v', ?h)" by simp
  moreover have "lower_hex ?h" by (rule lower_hex_hexlify)
  moreover have "length ?h = 2 * nat (hash1_len c div 2)" by (simp add: length_hexlify)
  ultimately show ?thesis by blast
qed

lemma min_double_div2: "min (2 * a) b div 2 = min a (b div (2::nat))"
  unfolding min_def by presburger

lemma rehash_ok:
  assumes "lower_hex shuffled" and "even (length shuffled)" and "2 \<le> hash2_len c"
    and "digest_fits X (hash2_len c)"
  shows "\<exists>bs h5 v. fromhex (take (nat (2 * hash2_len c)) shuffled) = Inr bs \<and>
           length bs = min (nat (hash2_len c)) (length shuffled div 2) \<and>
           shake_hash X bs (hash2_len c) ''shake_128'' = Inr h5 \<and>
           lower_hex h5 \<and> length h5 = 2 * nat (hash2_len c div 2) \<and>
           int16 h5 = Inr v \<and>
           bindE (fromhex (slice_to shuffled (hash2_len c * 2))) (\<lambda>shuffled_bytes.
           bindE (shake_hash X shuffled_bytes (hash2_len c) ''shake_128'') (\<lambda>h5.
           bindE (int16 h5) (\<lambda>value. Inr (value, h5)))) = Inr (v, h5)"
proof -
  let ?p = "take (nat (2 * hash2_len c)) shuffled"
  have sl: "slice_to shuffled (hash2_len c * 2) = ?p"
    using assms(3) by (simp add: slice_to_def mult.commute)
  have "even (nat (2 * hash2_len c))" using assms(3) by (simp add: nat_mult_distrib)
  with assms(2) have ev: "even (length ?p)" by (simp add: min_def)
  from fromhex_lower_hex [OF lower_hex_take [OF assms(1)] ev] obtain bs where
    bs: "fromhex ?p = Inr bs" "length bs = length ?p div 2" by blast
  have "length ?p = min (2 * nat (hash2_len c)) (length shuffled)"
    using assms(3) by (simp add: nat_mult_distrib min.commute)
  then have len: "length bs = min (nat (hash2_len c)) (length shuffled div 2)"
    using bs(2) by (simp add: min_double_div2)
  let ?h5 = "hexlify (squeeze (stream X Shake128 bs) (nat (hash2_len c div 2)))"
  have h5: "shake_hash X bs (hash2_len c) ''shake_128'' = Inr ?h5"
    using assms(3,4) by (simp add: shake_hash_fits)
  from assms(3) have "?h5 \<noteq> []" by simp
  then obtain v where v: "int16 ?h5 = Inr v"
    using int16_lower_hex [OF lower_hex_hexlify] by blast
  have "lower_hex ?h5" by (rule lower_hex_hexlify)
  moreover have "length ?h5 = 2 * nat (hash2_len c div 2)" by (simp add: length_hexlify)
  ultimately show ?thesis using bs(1) len h5 v sl by simp
qed

subsection \<open>The steps of a pass\<close>

lemma shuffle_rehash_ok:
  assumes "lower_hex h4" and "even (length h4)" and "2 \<le> hash2_len c"
    and "digest_fits X (hash2_len c)"
  shows "\<exists>shuffled bs h5 v.
           shuffle_string h4 st
             = (Inr shuffled, st\<lparr>random_used := random_used st + (length h4 - 1)\<rparr>) \<and>
           mset shuffled = mset h4 \<and>
           fromhex (take (nat (2 * hash2_len c)) shuffled) = Inr bs \<and>
           length bs = min (nat (hash2_len c)) (length h4 div 2) \<and>
           shake_hash X bs (hash2_len c) ''shake_128'' = Inr h5 \<and>
           lower_hex h5 \<and> length h5 = 2 * nat (hash2_len c div 2) \<and>
           int16 h5 = Inr v \<and>
           shuffle_rehash X c h4 st
             = (Inr (v, h5), st\<lparr>random_used := random_used st + (length h4 - 1)\<rparr>)"
proof -
  let ?st = "st\<lparr>random_used := random_used st + (length h4 - 1)\<rparr>"
  from shuffle_string_ok [of h4 st] obtain shuffled where
    sh: "shuffle_string h4 st = (Inr shuffled, ?st)" "mset shuffled = mset h4" by blast
  from sh(2) have same: "set shuffled = set h4" "length shuffled = length h4"
    by (auto dest: mset_eq_setD mset_eq_length)
  from same assms(1) have lh: "lower_hex shuffled" by (simp add: lower_hex_def)
  from same assms(2) have ev: "even (length shuffled)" by simp
  from rehash_ok [OF lh ev assms(3,4)] obtain bs h5 v where
    r: "fromhex (take (nat (2 * hash2_len c)) shuffled) = Inr bs"
       "length bs = min (nat (hash2_len c)) (length shuffled div 2)"
       "shake_hash X bs (hash2_len c) ''shake_128'' = Inr h5"
       "lower_hex h5" "length h5 = 2 * nat (hash2_len c div 2)"
       "int16 h5 = Inr v"
       "bindE (fromhex (slice_to shuffled (hash2_len c * 2))) (\<lambda>shuffled_bytes.
        bindE (shake_hash X shuffled_bytes (hash2_len c) ''shake_128'') (\<lambda>h5.
        bindE (int16 h5) (\<lambda>value. Inr (value, h5)))) = Inr (v, h5)"
    by blast
  have "shuffle_rehash X c h4 st = (Inr (v, h5), ?st)"
    unfolding shuffle_rehash_def using sh(1) r(7) by (simp add: bindM_Inr)
  with sh r same(2) show ?thesis by auto
qed

lemma trim_multiply_ok:
  assumes "lower_hex h5" and "remove_chars c < int (length h5)" and "h5 \<noteq> []"
  shows "\<exists>v. trim_multiply c h5 st
           = (Inr v, st\<lparr>secrets_used := secrets_used st + nat (remove_chars c) + 1\<rparr>) \<and> 0 \<le> v"
proof -
  let ?k = "nat (min (remove_chars c) (int (length h5)))"
  let ?st1 = "st\<lparr>secrets_used := secrets_used st + ?k\<rparr>"
  from assms(2) have k: "?k = nat (remove_chars c)" by (simp add: min_def)
  from remove_random_chars_ok [of h5 "remove_chars c" st] obtain trimmed where
    t: "remove_random_chars h5 (remove_chars c) st = (Inr trimmed, ?st1)"
       "length trimmed = length h5 - ?k" "set trimmed \<subseteq> set h5" by blast
  from assms(2,3) have "nat (remove_chars c) < length h5" by (cases h5) auto
  with t(2) have "0 < length trimmed" unfolding k by simp
  then have "trimmed \<noteq> []" by auto
  moreover from assms(1) t(3) have "lower_hex trimmed" by (rule lower_hex_subset)
  ultimately obtain parsed where p: "int16 trimmed = Inr parsed" "0 \<le> parsed"
    using int16_lower_hex by blast
  let ?r = "int (secrets_feed ?st1 (secrets_used ?st1)) mod 2 ^ 16"
  have "trim_multiply c h5 st
      = (Inr (parsed * (?r + 1)), ?st1\<lparr>secrets_used := Suc (secrets_used ?st1)\<rparr>)"
    unfolding trim_multiply_def using t(1) p(1)
    by (simp add: bindM_Inr bindM_def secrets_randbelow_pos)
  moreover have "0 \<le> parsed * (?r + 1)" using p(2) by simp
  ultimately show ?thesis unfolding k by simp
qed

lemma trim_multiply_empty:
  assumes "int (length h5) \<le> remove_chars c"
  shows "trim_multiply c h5 st = (Inl ValueError, st\<lparr>secrets_used := secrets_used st + length h5\<rparr>)"
proof -
  let ?k = "nat (min (remove_chars c) (int (length h5)))"
  from assms have k: "?k = length h5" by (simp add: min_def)
  from remove_random_chars_ok [of h5 "remove_chars c" st] obtain trimmed where
    t: "remove_random_chars h5 (remove_chars c) st
          = (Inr trimmed, st\<lparr>secrets_used := secrets_used st + ?k\<rparr>)"
       "length trimmed = length h5 - ?k" by blast
  from t(2) have "trimmed = []" unfolding k by simp
  with t(1) show ?thesis unfolding trim_multiply_def k
    by (simp add: bindM_Inr int16_Nil)
qed

lemma final_reduce_unfold:
  assumes "0 \<le> v" and "2 \<le> hash4_len c" and "digest_fits X (hash4_len c)"
  shows "\<exists>a b. final_reduce X c v
           = bindE (floordiv a (final_div c)) (\<lambda>value. Inr (b mod 256))"
proof -
  let ?h = "hexlify (squeeze (stream X (if ''shake_256'' = ''shake_128'' then Shake128 else Shake256)
                            (be_bytes (nat v) (byte_len v))) (nat (hash4_len c div 2)))"
  from assms(2) have ne: "?h \<noteq> []" by simp
  then obtain a where a: "int16 ?h = Inr a"
    using int16_lower_hex [OF lower_hex_hexlify] by blast
  have sl: "slice_to ?h 4096 = take 4096 ?h" by (simp add: slice_to_def)
  from ne have "take 4096 ?h \<noteq> []" by simp
  moreover have "lower_hex (take 4096 ?h)" by (rule lower_hex_take) (rule lower_hex_hexlify)
  ultimately obtain b where b: "int16 (take 4096 ?h) = Inr b"
    using int16_lower_hex by blast
  have "final_reduce X c v
      = bindE (int16 ?h) (\<lambda>value. bindE (floordiv value (final_div c)) (\<lambda>value.
        bindE (int16 (slice_to ?h 4096)) (\<lambda>value. Inr (value mod 256))))"
    unfolding final_reduce_def using assms by (intro encode_hash) simp_all
  also have "\<dots> = bindE (floordiv a (final_div c)) (\<lambda>value. Inr (b mod 256))"
    by (simp only: a b sl bindE_Inr)
  finally show ?thesis by blast
qed

lemma final_reduce_ok:
  assumes "0 \<le> v" and "2 \<le> hash4_len c" and "digest_fits X (hash4_len c)"
    and "final_div c \<noteq> 0"
  shows "\<exists>r. final_reduce X c v = Inr r \<and> 0 \<le> r \<and> r \<le> 255"
proof -
  from final_reduce_unfold [OF assms(1-3)] obtain a b where
    "final_reduce X c v = bindE (floordiv a (final_div c)) (\<lambda>value. Inr (b mod 256))"
    by blast
  with assms(4) have "final_reduce X c v = Inr (b mod 256)" by (simp add: floordiv_def)
  moreover have "0 \<le> b mod 256" "b mod 256 \<le> 255" by simp_all
  ultimately show ?thesis by blast
qed

lemma final_reduce_zero:
  assumes "0 \<le> v" and "2 \<le> hash4_len c" and "digest_fits X (hash4_len c)"
    and "final_div c = 0"
  shows "final_reduce X c v = Inl ZeroDivisionError"
proof -
  from final_reduce_unfold [OF assms(1-3)] obtain a b where
    "final_reduce X c v = bindE (floordiv a (final_div c)) (\<lambda>value. Inr (b mod 256))"
    by blast
  with assms(4) show ?thesis by (simp add: floordiv_def)
qed

lemma final_reduce_too_long:
  assumes "0 \<le> v" and "0 \<le> hash4_len c" and "\<not> digest_fits X (hash4_len c)"
  shows "\<exists>e. final_reduce X c v = Inl e \<and> e \<noteq> ValueError"
  unfolding final_reduce_def using assms by (rule encode_hash_too_long)

lemma final_reduce_overflow:
  assumes "0 \<le> v" and "2 ^ 64 \<le> hash4_len c"
  shows "final_reduce X c v = Inl OverflowError"
  unfolding final_reduce_def using assms
  by (simp add: to_bytes_byte_len shake_hash_overflow)

subsection \<open>One pass\<close>

lemma pass_front:
  assumes "0 \<le> v" and "2 \<le> hash1_len c" and "2 \<le> hash2_len c"
    and "digest_fits X (hash1_len c)" and "digest_fits X (hash2_len c)"
  shows "\<exists>h5. lower_hex h5 \<and> length h5 = 2 * nat (hash2_len c div 2) \<and>
           pipeline_pass X c v st
             = bindM (trim_multiply c h5) (\<lambda>value. lift (final_reduce X c value))
                 (st\<lparr>secrets_used := secrets_used st + nat (mul_times c) + nat (add_times c),
                     random_used := random_used st + (2 * nat (hash1_len c div 2) - 1)\<rparr>)"
proof -
  let ?st1 = "st\<lparr>secrets_used := secrets_used st + nat (mul_times c)\<rparr>"
  let ?st2 = "?st1\<lparr>secrets_used := secrets_used ?st1 + nat (add_times c)\<rparr>"
  from multiply_by_random_ok [OF assms(1), where t = "mul_times c" and st = st] obtain v1 where
    v1: "multiply_by_random v (mul_times c) st = (Inr v1, ?st1)" "0 \<le> v1" by blast
  from add_random_ok [OF v1(2), where t = "add_times c" and st = "?st1"] obtain v2 where
    v2: "add_random v1 (add_times c) ?st1 = (Inr v2, ?st2)" "0 \<le> v2" by blast
  from repeated_hashing_ok [OF v2(2) assms(2,4), where k = "hash1_loops c" and alg = "''shake_256''"]
  obtain v3 where
    v3: "repeated_hashing X v2 (hash1_len c) (hash1_loops c) ''shake_256'' = Inr v3" "0 \<le> v3"
    by blast
  from repeated_hashing_ok [OF v3(2) assms(3,5), where k = 1 and alg = "''shake_128''"]
  obtain v4 where
    v4: "repeated_hashing X v3 (hash2_len c) 1 ''shake_128'' = Inr v4" "0 \<le> v4"
    by blast
  from sqrt_and_divide_ok [OF v4(2)] obtain v5 where
    v5: "sqrt_and_divide v4 4 = Inr v5" "0 \<le> v5" by blast
  from hash_reverse_ok [OF v5(2) assms(2,4)] obtain v6 where
    v6: "hash_reverse X c v5 = Inr v6" "0 \<le> v6" by blast
  from hash_again_ok [OF v6(2) assms(2,4)] obtain v7 h4 where
    v7: "hash_again X c v6 = Inr (v7, h4)" "lower_hex h4"
        "length h4 = 2 * nat (hash1_len c div 2)" by blast
  from v7(3) have "even (length h4)" by simp
  from shuffle_rehash_ok [OF v7(2) this assms(3,5), where st = "?st2"] obtain v8 h5 where
    v8: "shuffle_rehash X c h4 ?st2
           = (Inr (v8, h5), ?st2\<lparr>random_used := random_used ?st2 + (length h4 - 1)\<rparr>)"
        "lower_hex h5" "length h5 = 2 * nat (hash2_len c div 2)" by blast
  have "pipeline_pass X c v st
      = bindM (trim_multiply c h5) (\<lambda>value. lift (final_reduce X c value))
          (?st2\<lparr>random_used := random_used ?st2 + (length h4 - 1)\<rparr>)"
    unfolding pipeline_pass_def
    by (simp only: bindM_def lift_def v1(1) v2(1) v3(1) v4(1) v5(1) v6(1) v7(1) v8(1)
                   prod.case sum.case)
  moreover have "?st2\<lparr>random_used := random_used ?st2 + (length h4 - 1)\<rparr>
      = st\<lparr>secrets_used := secrets_used st + nat (mul_times c) + nat (add_times c),
           random_used := random_used st + (2 * nat (hash1_len c div 2) - 1)\<rparr>"
    by (simp add: v7(3))
  ultimately have "pipeline_pass X c v st
      = bindM (trim_multiply c h5) (\<lambda>value. lift (final_reduce X c value))
          (st\<lparr>secrets_used := secrets_used st + nat (mul_times c) + nat (add_times c),
              random_used := random_used st + (2 * nat (hash1_len c div 2) - 1)\<rparr>)"
    by (simp only:)
  with v8(2,3) show ?thesis by blast
qed

text \<open>A pass up to the last hash: the value that reaches line 131 is not negative.\<close>

lemma pass_to_final:
  assumes "0 \<le> v" and "2 \<le> hash1_len c" and "2 \<le> hash2_len c"
    and "digest_fits X (hash1_len c)" and "digest_fits X (hash2_len c)"
    and "remove_chars c < int (2 * nat (hash2_len c div 2))"
  shows "\<exists>v9. 0 \<le> v9 \<and>
           pipeline_pass X c v st
             = (final_reduce X c v9,
                st\<lparr>secrets_used := secrets_used st +
                        (nat (mul_times c) + nat (add_times c) + nat (remove_chars c) + 1),
                    random_used := random_used st + (2 * nat (hash1_len c div 2) - 1)\<rparr>)"
proof -
  let ?st5 = "st\<lparr>secrets_used := secrets_used st + nat (mul_times c) + nat (add_times c),
                 random_used := random_used st + (2 * nat (hash1_len c div 2) - 1)\<rparr>"
  from pass_front [OF assms(1-5), where st = st] obtain h5 where
    f: "lower_hex h5" "length h5 = 2 * nat (hash2_len c div 2)"
       "pipeline_pass X c v st
          = bindM (trim_multiply c h5) (\<lambda>value. lift (final_reduce X c value)) ?st5"
    by blast
  from f(2) assms(3) have ne: "h5 \<noteq> []" by auto
  from assms(6) f(2) have "remove_chars c < int (length h5)" by simp
  from trim_multiply_ok [OF f(1) this ne, where st = "?st5"] obtain v9 where
    t: "trim_multiply c h5 ?st5
          = (Inr v9, ?st5\<lparr>secrets_used := secrets_used ?st5 + nat (remove_chars c) + 1\<rparr>)"
       "0 \<le> v9" by blast
  have "pipeline_pass X c v st
      = (final_reduce X c v9,
         ?st5\<lparr>secrets_used := secrets_used ?st5 + nat (remove_chars c) + 1\<rparr>)"
    unfolding f(3) by (simp only: bindM_def lift_def t(1) prod.case sum.case)
  also have "?st5\<lparr>secrets_used := secrets_used ?st5 + nat (remove_chars c) + 1\<rparr>
      = st\<lparr>secrets_used := secrets_used st +
               (nat (mul_times c) + nat (add_times c) + nat (remove_chars c) + 1),
            random_used := random_used st + (2 * nat (hash1_len c div 2) - 1)\<rparr>"
    by simp
  finally show ?thesis using t(2) by blast
qed

lemma pass_ok:
  assumes "0 \<le> v" and "2 \<le> hash1_len c" and "2 \<le> hash2_len c"
    and "digest_fits X (hash1_len c)" and "digest_fits X (hash2_len c)"
    and "remove_chars c < int (2 * nat (hash2_len c div 2))"
    and "2 \<le> hash4_len c" and "digest_fits X (hash4_len c)" and "final_div c \<noteq> 0"
  shows "\<exists>r st'. pipeline_pass X c v st = (Inr r, st') \<and> 0 \<le> r \<and> r \<le> 255"
proof -
  from pass_to_final [OF assms(1-6), where st = st] obtain v9 st9 where
    p: "0 \<le> v9" "pipeline_pass X c v st = (final_reduce X c v9, st9)" by blast
  from final_reduce_ok [OF p(1) assms(7-9)] obtain r where
    r: "final_reduce X c v9 = Inr r" "0 \<le> r" "r \<le> 255" by blast
  from p(2) r show ?thesis by simp
qed

lemma pass_zero_division:
  assumes "0 \<le> v" and "2 \<le> hash1_len c" and "2 \<le> hash2_len c"
    and "digest_fits X (hash1_len c)" and "digest_fits X (hash2_len c)"
    and "remove_chars c < int (2 * nat (hash2_len c div 2))"
    and "2 \<le> hash4_len c" and "digest_fits X (hash4_len c)" and "final_div c = 0"
  shows "pipeline_pass X c v st
    = (Inl ZeroDivisionError,
       st\<lparr>secrets_used := secrets_used st +
               (nat (mul_times c) + nat (add_times c) + nat (remove_chars c) + 1),
          random_used := random_used st + (2 * nat (hash1_len c div 2) - 1)\<rparr>)"
proof -
  from pass_to_final [OF assms(1-6), where st = st] obtain v9 where
    p: "0 \<le> v9"
       "pipeline_pass X c v st
          = (final_reduce X c v9,
             st\<lparr>secrets_used := secrets_used st +
                     (nat (mul_times c) + nat (add_times c) + nat (remove_chars c) + 1),
                 random_used := random_used st + (2 * nat (hash1_len c div 2) - 1)\<rparr>)"
    by blast
  from final_reduce_zero [OF p(1) assms(7-9)] p(2) show ?thesis by (simp only:)
qed

lemma pass_overflow:
  assumes "0 \<le> v" and "2 \<le> hash1_len c" and "2 \<le> hash2_len c"
    and "digest_fits X (hash1_len c)" and "digest_fits X (hash2_len c)"
    and "remove_chars c < int (2 * nat (hash2_len c div 2))"
    and "2 ^ 64 \<le> hash4_len c"
  shows "fst (pipeline_pass X c v st) = Inl OverflowError"
proof -
  from pass_to_final [OF assms(1-6), where st = st] obtain v9 st9 where
    p: "0 \<le> v9" "pipeline_pass X c v st = (final_reduce X c v9, st9)" by blast
  from final_reduce_overflow [OF p(1) assms(7)] p(2) show ?thesis by simp
qed

lemma pass_value_error:
  assumes "0 \<le> v" and "2 \<le> hash1_len c" and "2 \<le> hash2_len c"
    and "digest_fits X (hash1_len c)" and "digest_fits X (hash2_len c)"
    and "int (2 * nat (hash2_len c div 2)) \<le> remove_chars c"
  shows "fst (pipeline_pass X c v st) = Inl ValueError"
proof -
  from pass_front [OF assms(1-5), where st = st] obtain h5 st5 where
    f: "length h5 = 2 * nat (hash2_len c div 2)"
       "pipeline_pass X c v st
          = bindM (trim_multiply c h5) (\<lambda>value. lift (final_reduce X c value)) st5"
    by blast
  from assms(6) f(1) have "int (length h5) \<le> remove_chars c" by simp
  from trim_multiply_empty [OF this, where st = st5] show ?thesis
    unfolding f(2) by (simp add: bindM_def)
qed

text \<open>
  A digest length out of the library's reach stops the pass at the first hash that uses
  it, with the library's exception and never with a parse error.
\<close>

lemma pass_too_long:
  assumes "0 \<le> v" and "0 < hash1_loops c"
    and "2 \<le> hash1_len c" and "2 \<le> hash2_len c" and "2 \<le> hash4_len c"
    and "remove_chars c < int (2 * nat (hash2_len c div 2))"
    and "\<not> lengths_fit X c"
  shows "\<exists>e. fst (pipeline_pass X c v st) = Inl e \<and> e \<noteq> ValueError"
proof -
  let ?st1 = "st\<lparr>secrets_used := secrets_used st + nat (mul_times c)\<rparr>"
  let ?st2 = "?st1\<lparr>secrets_used := secrets_used ?st1 + nat (add_times c)\<rparr>"
  from multiply_by_random_ok [OF assms(1), where t = "mul_times c" and st = st] obtain v1 where
    v1: "multiply_by_random v (mul_times c) st = (Inr v1, ?st1)" "0 \<le> v1" by blast
  from add_random_ok [OF v1(2), where t = "add_times c" and st = "?st1"] obtain v2 where
    v2: "add_random v1 (add_times c) ?st1 = (Inr v2, ?st2)" "0 \<le> v2" by blast
  show ?thesis
  proof (cases "digest_fits X (hash1_len c)")
    case False
    from assms(3) have "0 \<le> hash1_len c" by simp
    from repeated_hashing_too_long [OF v2(2) this False assms(2), where alg = "''shake_256''"]
    obtain e where
      e: "repeated_hashing X v2 (hash1_len c) (hash1_loops c) ''shake_256'' = Inl e"
         "e \<noteq> ValueError" by blast
    have "pipeline_pass X c v st = (Inl e, ?st2)"
      unfolding pipeline_pass_def
      by (simp only: bindM_def lift_def v1(1) v2(1) e(1) prod.case sum.case)
    with e(2) show ?thesis by simp
  next
    case h1: True
    from repeated_hashing_ok [OF v2(2) assms(3) h1, where k = "hash1_loops c" and alg = "''shake_256''"]
    obtain v3 where
      v3: "repeated_hashing X v2 (hash1_len c) (hash1_loops c) ''shake_256'' = Inr v3" "0 \<le> v3"
      by blast
    show ?thesis
    proof (cases "digest_fits X (hash2_len c)")
      case False
      from assms(4) have "0 \<le> hash2_len c" by simp
      from repeated_hashing_too_long [OF v3(2) this False, where k = 1 and alg = "''shake_128''"]
      obtain e where
        e: "repeated_hashing X v3 (hash2_len c) 1 ''shake_128'' = Inl e" "e \<noteq> ValueError"
        by auto
      have "pipeline_pass X c v st = (Inl e, ?st2)"
        unfolding pipeline_pass_def
        by (simp only: bindM_def lift_def v1(1) v2(1) v3(1) e(1) prod.case sum.case)
      with e(2) show ?thesis by simp
    next
      case h2: True
      with h1 assms(7) have h4: "\<not> digest_fits X (hash4_len c)" by (simp add: lengths_fit_def)
      from pass_to_final [OF assms(1,3,4) h1 h2 assms(6), where st = st] obtain v9 st9 where
        p: "0 \<le> v9" "pipeline_pass X c v st = (final_reduce X c v9, st9)" by blast
      from assms(5) have "0 \<le> hash4_len c" by simp
      from final_reduce_too_long [OF p(1) this h4] p(2) show ?thesis by simp
    qed
  qed
qed

subsection \<open>The loop over the passes\<close>

lemma pipeline_first_pass:
  assumes "0 < loops c" and "pipeline_pass X c v st = (Inl e, st')"
  shows "pipeline X v c st = (Inl e, st')"
proof -
  from assms(1) obtain k where "nat (loops c) = Suc k"
    by (cases "nat (loops c)") auto
  with assms(2) show ?thesis by (simp add: pipeline_def bindM_Inl)
qed

lemma pipeline_first_pass_fst:
  assumes "0 < loops c" and "fst (pipeline_pass X c v st) = Inl e"
  shows "fst (pipeline X v c st) = Inl e"
proof -
  from assms(2) obtain st' where "pipeline_pass X c v st = (Inl e, st')"
    by (cases "pipeline_pass X c v st") auto
  from pipeline_first_pass [OF assms(1) this] show ?thesis by simp
qed

lemma passes_ok:
  assumes "2 \<le> hash1_len c" and "2 \<le> hash2_len c"
    and "digest_fits X (hash1_len c)" and "digest_fits X (hash2_len c)"
    and "remove_chars c < int (2 * nat (hash2_len c div 2))"
    and "2 \<le> hash4_len c" and "digest_fits X (hash4_len c)" and "final_div c \<noteq> 0"
  shows "0 \<le> v \<Longrightarrow> \<exists>r st'. for_range k (pipeline_pass X c) v st = (Inr r, st') \<and>
           (if k = 0 then r = v else 0 \<le> r \<and> r \<le> 255)"
proof (induction k arbitrary: v st)
  case 0
  show ?case by simp
next
  case (Suc k)
  from pass_ok [OF Suc.prems assms, where st = st] obtain r1 st1 where
    p: "pipeline_pass X c v st = (Inr r1, st1)" "0 \<le> r1" "r1 \<le> 255" by blast
  from Suc.IH [OF p(2), where st = st1] obtain r st' where
    q: "for_range k (pipeline_pass X c) r1 st1 = (Inr r, st')"
       "if k = 0 then r = r1 else 0 \<le> r \<and> r \<le> 255" by blast
  have "for_range (Suc k) (pipeline_pass X c) v st = (Inr r, st')"
    by (simp only: for_range.simps bindM_def p(1) q(1) prod.case sum.case)
  moreover from q(2) p(2,3) have "0 \<le> r \<and> r \<le> 255" by (cases "k = 0") simp_all
  ultimately show ?case by simp
qed

lemma valid_shape_bounds:
  assumes "valid_shape c"
  shows "2 \<le> hash1_len c" and "2 \<le> hash2_len c" and "2 \<le> hash4_len c"
    and "int (2 * nat (hash2_len c div 2)) = hash2_len c"
    and "int (2 * nat (hash1_len c div 2)) = hash1_len c" and "0 < loops c"
    and "0 < hash1_loops c"
  using assms unfolding valid_shape_def by auto

lemma pipeline_ok:
  assumes "valid_config c" and "lengths_fit X c" and "remove_chars c < hash2_len c"
    and "0 \<le> seed"
  shows "\<exists>r st'. pipeline X seed c st = (Inr r, st') \<and> 0 \<le> r \<and> r \<le> 255"
proof -
  from assms(1) have s: "valid_shape c" and d: "final_div c \<noteq> 0"
    by (simp_all add: valid_config_def)
  note b = valid_shape_bounds [OF s]
  from assms(2) have f: "digest_fits X (hash1_len c)" "digest_fits X (hash2_len c)"
    "digest_fits X (hash4_len c)" by (simp_all add: lengths_fit_def)
  from assms(3) have rc: "remove_chars c < int (2 * nat (hash2_len c div 2))"
    by (simp only: b(4))
  from b(6) have k: "nat (loops c) \<noteq> 0" by simp
  from passes_ok [OF b(1,2) f(1,2) rc b(3) f(3) d assms(4), where k = "nat (loops c)" and st = st] k
  show ?thesis by (simp add: pipeline_def)
qed

lemma pipeline_value_error:
  assumes "valid_shape c" and "digest_fits X (hash1_len c)" and "digest_fits X (hash2_len c)"
    and "hash2_len c \<le> remove_chars c" and "0 \<le> seed"
  shows "fst (pipeline X seed c st) = Inl ValueError"
proof -
  note b = valid_shape_bounds [OF assms(1)]
  from assms(4) have "int (2 * nat (hash2_len c div 2)) \<le> remove_chars c"
    by (simp only: b(4))
  from pass_value_error [OF assms(5) b(1,2) assms(2,3) this, where st = st]
  show ?thesis using b(6) by (intro pipeline_first_pass_fst)
qed

lemma pipeline_zero_division:
  assumes "valid_shape c" and "lengths_fit X c" and "final_div c = 0"
    and "remove_chars c < hash2_len c" and "0 \<le> seed"
  shows "pipeline X seed c st
    = (Inl ZeroDivisionError,
       st\<lparr>secrets_used := secrets_used st +
               (nat (mul_times c) + nat (add_times c) + nat (remove_chars c) + 1),
          random_used := random_used st + (nat (hash1_len c) - 1)\<rparr>)"
proof -
  note b = valid_shape_bounds [OF assms(1)]
  from assms(2) have f: "digest_fits X (hash1_len c)" "digest_fits X (hash2_len c)"
    "digest_fits X (hash4_len c)" by (simp_all add: lengths_fit_def)
  from assms(4) have rc: "remove_chars c < int (2 * nat (hash2_len c div 2))"
    by (simp only: b(4))
  from b(5) have h1: "2 * nat (hash1_len c div 2) = nat (hash1_len c)" by linarith
  from pass_zero_division [OF assms(5) b(1,2) f(1,2) rc b(3) f(3) assms(3), where st = st]
  have "pipeline_pass X c seed st
    = (Inl ZeroDivisionError,
       st\<lparr>secrets_used := secrets_used st +
               (nat (mul_times c) + nat (add_times c) + nat (remove_chars c) + 1),
          random_used := random_used st + (nat (hash1_len c) - 1)\<rparr>)"
    by (simp only: h1)
  with b(6) show ?thesis by (rule pipeline_first_pass)
qed

lemma pipeline_too_long:
  assumes "valid_shape c" and "\<not> lengths_fit X c" and "remove_chars c < hash2_len c"
    and "0 \<le> seed"
  shows "\<exists>e. fst (pipeline X seed c st) = Inl e \<and> e \<noteq> ValueError"
proof -
  note b = valid_shape_bounds [OF assms(1)]
  from assms(3) have rc: "remove_chars c < int (2 * nat (hash2_len c div 2))"
    by (simp only: b(4))
  from pass_too_long [OF assms(4) b(7) b(1-3) rc assms(2), where st = st] obtain e where
    e: "fst (pipeline_pass X c seed st) = Inl e" "e \<noteq> ValueError" by blast
  from pipeline_first_pass_fst [OF b(6) e(1)] e(2) show ?thesis by blast
qed

lemma pipeline_overflow:
  assumes "valid_shape c" and "digest_fits X (hash1_len c)" and "digest_fits X (hash2_len c)"
    and "2 ^ 64 \<le> hash4_len c" and "remove_chars c < hash2_len c" and "0 \<le> seed"
  shows "fst (pipeline X seed c st) = Inl OverflowError"
proof -
  note b = valid_shape_bounds [OF assms(1)]
  from assms(5) have rc: "remove_chars c < int (2 * nat (hash2_len c div 2))"
    by (simp only: b(4))
  from pass_overflow [OF assms(6) b(1,2) assms(2,3) rc assms(4), where st = st]
  show ?thesis using b(6) by (intro pipeline_first_pass_fst)
qed

section \<open>The pipeline as a whole\<close>

lemma valid_shape_default [simp]: "valid_shape default_config"
  by (simp add: valid_shape_def default_config_def)

lemma valid_shape_small [simp]: "valid_shape small_config"
  by (simp add: valid_shape_def small_config_def)

lemma lengths_fit_default [simp]: "lengths_fit demo_xof default_config"
  by (simp add: lengths_fit_def default_config_def)

lemma lengths_fit_small [simp]: "lengths_fit demo_xof small_config"
  by (simp add: lengths_fit_def small_config_def)

text \<open>
  Claim C1, amended. For every configuration that the specification calls valid, whose
  \<open>remove_chars\<close> is smaller than \<open>hash2_len\<close> (at least one character of \<open>h5\<close> is left
  to parse) and whose three digest lengths the hash library can take (byte counts below
  \<open>2 ^ 63\<close> that the platform allocates), and for every non-negative seed, the pipeline
  returns an integer \<open>r\<close> with \<open>0 \<le> r \<le> 255\<close>, whatever the output of the hash primitive
  and the random draws are.
\<close>

theorem pipeline_byte_range:
  assumes "valid_config c" and "lengths_fit X c" and "remove_chars c < hash2_len c"
    and "0 \<le> seed"
  shows "\<exists>r. fst (pipeline X seed c st) = Inr r \<and> 0 \<le> r \<and> r \<le> 255"
proof -
  from pipeline_ok [OF assms, where st = st] obtain r st' where
    "pipeline X seed c st = (Inr r, st')" "0 \<le> r" "r \<le> 255" by blast
  then show ?thesis by simp
qed

theorem pipeline_byte_range_witness:
  "valid_config default_config \<and> lengths_fit demo_xof default_config \<and>
   remove_chars default_config < hash2_len default_config \<and> (0::int) \<le> 12345 \<and>
   (\<exists>r. fst (pipeline demo_xof 12345 default_config demo_rng) = Inr r \<and> 0 \<le> r \<and> r \<le> 255)"
proof -
  have "final_div default_config \<noteq> 0" by (simp add: default_config_def)
  then have v: "valid_config default_config" by (simp add: valid_config_def)
  have f: "lengths_fit demo_xof default_config" by simp
  have r: "remove_chars default_config < hash2_len default_config"
    by (simp add: default_config_def)
  from pipeline_byte_range [OF v f r, of 12345 demo_rng] v f r show ?thesis by simp
qed

text \<open>
  The claim as stated fails at two valid configurations. With the default parameters and
  \<open>hash2_len = 8\<close>, the default \<open>remove_chars = 10\<close> deletes all eight characters of
  \<open>h5\<close> and \<^verbatim>\<open>int("", 16)\<close> at line 128 raises \<^verbatim>\<open>ValueError\<close>. With the small
  parameters and \<open>hash4_len = 2 ^ 64\<close>, the call of \<^verbatim>\<open>hexdigest\<close> at line 132 asks for
  \<open>2 ^ 63\<close> bytes and raises \<^verbatim>\<open>OverflowError\<close>.
\<close>

theorem pipeline_byte_range_counterexample:
  "valid_config (default_config\<lparr>hash2_len := 8\<rparr>) \<and> (0::int) \<le> 12345 \<and>
   fst (pipeline demo_xof 12345 (default_config\<lparr>hash2_len := 8\<rparr>) demo_rng) = Inl ValueError \<and>
   valid_config (small_config\<lparr>hash4_len := 18446744073709551616\<rparr>) \<and> (0::int) \<le> 1 \<and>
   fst (pipeline demo_xof 1 (small_config\<lparr>hash4_len := 18446744073709551616\<rparr>) demo_rng)
     = Inl OverflowError"
proof -
  let ?a = "default_config\<lparr>hash2_len := 8\<rparr>"
  let ?b = "small_config\<lparr>hash4_len := 18446744073709551616\<rparr>"
  have va: "valid_shape ?a" by (simp add: valid_shape_def default_config_def)
  have fa: "digest_fits demo_xof (hash1_len ?a)" "digest_fits demo_xof (hash2_len ?a)"
    by (simp_all add: default_config_def)
  have ra: "hash2_len ?a \<le> remove_chars ?a" by (simp add: default_config_def)
  have a: "fst (pipeline demo_xof 12345 ?a demo_rng) = Inl ValueError"
    using va fa ra by (rule pipeline_value_error) simp
  have vb: "valid_shape ?b" by (simp add: valid_shape_def small_config_def)
  have fb: "digest_fits demo_xof (hash1_len ?b)" "digest_fits demo_xof (hash2_len ?b)"
    by (simp_all add: small_config_def)
  have lb: "2 ^ 64 \<le> hash4_len ?b" by simp
  have rb: "remove_chars ?b < hash2_len ?b" by (simp add: small_config_def)
  have b: "fst (pipeline demo_xof 1 ?b demo_rng) = Inl OverflowError"
    using vb fb lb rb by (rule pipeline_overflow) simp
  from a b va vb show ?thesis
    by (simp add: valid_config_def default_config_def small_config_def)
qed

text \<open>
  Claim C2, amended. The pipeline validates nothing up front. With \<open>final_div = 0\<close>, counts
  and hash lengths as the specification requires, digest lengths the hash library can
  take, \<open>remove_chars < hash2_len\<close> and a non-negative seed, the first pass runs up to the
  division of line 136, which raises \<^verbatim>\<open>ZeroDivisionError\<close>; by then the pass has made
  \<open>mul_times + add_times + max(remove_chars, 0) + 1\<close> draws from \<^verbatim>\<open>secrets\<close> and
  \<open>hash1_len - 1\<close> draws in the shuffle.
\<close>

theorem final_div_zero_fails_late:
  assumes "valid_shape c" and "lengths_fit X c" and "final_div c = 0"
    and "remove_chars c < hash2_len c" and "0 \<le> seed"
  shows "pipeline X seed c st
    = (Inl ZeroDivisionError,
       st\<lparr>secrets_used := secrets_used st +
               (nat (mul_times c) + nat (add_times c) + nat (remove_chars c) + 1),
          random_used := random_used st + (nat (hash1_len c) - 1)\<rparr>)"
  using assms by (rule pipeline_zero_division)

theorem final_div_zero_fails_late_witness:
  "valid_shape (small_config\<lparr>final_div := 0\<rparr>) \<and>
   lengths_fit demo_xof (small_config\<lparr>final_div := 0\<rparr>) \<and>
   final_div (small_config\<lparr>final_div := 0\<rparr>) = 0 \<and>
   remove_chars (small_config\<lparr>final_div := 0\<rparr>) < hash2_len (small_config\<lparr>final_div := 0\<rparr>) \<and>
   (0::int) \<le> 1 \<and>
   pipeline demo_xof 1 (small_config\<lparr>final_div := 0\<rparr>) demo_rng
     = (Inl ZeroDivisionError, demo_rng\<lparr>secrets_used := 4, random_used := 3\<rparr>)"
  using final_div_zero_fails_late [of "small_config\<lparr>final_div := 0\<rparr>" demo_xof 1 demo_rng]
  by (simp add: valid_shape_def lengths_fit_def small_config_def demo_rng_def)

text \<open>
  The claim as stated fails: with the default parameters and \<open>final_div = 0\<close> the exception
  is \<^verbatim>\<open>ZeroDivisionError\<close>, raised after 13 draws from \<^verbatim>\<open>secrets\<close> and 1023 draws in
  the shuffle.
\<close>

theorem final_div_zero_counterexample:
  "final_div (default_config\<lparr>final_div := 0\<rparr>) = 0 \<and>
   fst (pipeline demo_xof 12345 (default_config\<lparr>final_div := 0\<rparr>) demo_rng)
     = Inl ZeroDivisionError \<and>
   secrets_used (snd (pipeline demo_xof 12345 (default_config\<lparr>final_div := 0\<rparr>) demo_rng)) = 13 \<and>
   random_used (snd (pipeline demo_xof 12345 (default_config\<lparr>final_div := 0\<rparr>) demo_rng)) = 1023"
proof -
  have v: "valid_shape (default_config\<lparr>final_div := 0\<rparr>)"
    by (simp add: valid_shape_def default_config_def)
  have f: "lengths_fit demo_xof (default_config\<lparr>final_div := 0\<rparr>)"
    by (simp add: lengths_fit_def default_config_def)
  have z: "final_div (default_config\<lparr>final_div := 0\<rparr>) = 0" by simp
  have r: "remove_chars (default_config\<lparr>final_div := 0\<rparr>)
             < hash2_len (default_config\<lparr>final_div := 0\<rparr>)"
    by (simp add: default_config_def)
  from pipeline_zero_division [OF v f z r, of 12345 demo_rng]
  show ?thesis by (simp add: default_config_def demo_rng_def)
qed

text \<open>
  Claim C3, amended. Deleting \<open>n \<ge> length s\<close> characters from any string \<open>s\<close> yields the
  empty string without error. The pipeline has no rule that reads the empty string as
  zero; for every valid configuration with \<open>remove_chars < hash2_len\<close> and every
  non-negative seed no parse error (\<^verbatim>\<open>ValueError\<close>) surfaces from the pipeline, and the
  pipeline returns a value when the hash library can take the three digest lengths.
\<close>

theorem deletion_and_parse:
  "(int (length s) \<le> n \<longrightarrow> fst (remove_random_chars s n st) = Inr []) \<and>
   (valid_config c \<and> remove_chars c < hash2_len c \<and> 0 \<le> seed \<longrightarrow>
      fst (pipeline X seed c st') \<noteq> Inl ValueError \<and>
      (lengths_fit X c \<longrightarrow> (\<exists>r. fst (pipeline X seed c st') = Inr r)))"
proof (intro conjI impI)
  assume "int (length s) \<le> n"
  then have k: "nat (min n (int (length s))) = length s" by (simp add: min_def)
  from remove_random_chars_ok [of s n st] obtain s' where
    "remove_random_chars s n st
       = (Inr s', st\<lparr>secrets_used := secrets_used st + nat (min n (int (length s)))\<rparr>)"
    "length s' = length s - nat (min n (int (length s)))" by blast
  then show "fst (remove_random_chars s n st) = Inr []" unfolding k by simp
next
  assume "valid_config c \<and> remove_chars c < hash2_len c \<and> 0 \<le> seed"
  then have a: "valid_config c" "remove_chars c < hash2_len c" "0 \<le> seed" by simp_all
  show "fst (pipeline X seed c st') \<noteq> Inl ValueError"
  proof (cases "lengths_fit X c")
    case True
    from pipeline_ok [OF a(1) True a(2,3), where st = st'] obtain r st'' where
      "pipeline X seed c st' = (Inr r, st'')" by blast
    then show ?thesis by simp
  next
    case False
    from a(1) have "valid_shape c" by (simp add: valid_config_def)
    from pipeline_too_long [OF this False a(2,3), where st = st'] show ?thesis by auto
  qed
next
  assume "valid_config c \<and> remove_chars c < hash2_len c \<and> 0 \<le> seed"
    and f: "lengths_fit X c"
  then have a: "valid_config c" "remove_chars c < hash2_len c" "0 \<le> seed" by simp_all
  from pipeline_ok [OF a(1) f a(2,3), where st = st'] obtain r st'' where
    "pipeline X seed c st' = (Inr r, st'')" by blast
  then show "\<exists>r. fst (pipeline X seed c st') = Inr r" by simp
qed

theorem deletion_and_parse_witness:
  "int (length ''c0ffee'') \<le> 9 \<and> fst (remove_random_chars ''c0ffee'' 9 demo_rng) = Inr [] \<and>
   valid_config small_config \<and> remove_chars small_config < hash2_len small_config \<and>
   (0::int) \<le> 7 \<and> fst (pipeline demo_xof 7 small_config demo_rng) \<noteq> Inl ValueError \<and>
   lengths_fit demo_xof small_config \<and>
   (\<exists>r. fst (pipeline demo_xof 7 small_config demo_rng) = Inr r)"
proof -
  have "final_div small_config \<noteq> 0" by (simp add: small_config_def)
  then have v: "valid_config small_config" by (simp add: valid_config_def)
  have f: "lengths_fit demo_xof small_config" by simp
  have r: "remove_chars small_config < hash2_len small_config"
    by (simp add: small_config_def)
  from deletion_and_parse [of "''c0ffee''" 9 demo_rng small_config 7 demo_xof demo_rng] v f r
  show ?thesis by simp
qed

text \<open>
  The claim as stated fails: with the default parameters and \<open>remove_chars = 512\<close>, the
  length of \<open>h5\<close>, the configuration is valid and the parse of the emptied string raises
  \<^verbatim>\<open>ValueError\<close>.
\<close>

theorem deletion_and_parse_counterexample:
  "valid_config (default_config\<lparr>remove_chars := 512\<rparr>) \<and> (0::int) \<le> 1 \<and>
   fst (pipeline demo_xof 1 (default_config\<lparr>remove_chars := 512\<rparr>) demo_rng) = Inl ValueError"
proof -
  let ?a = "default_config\<lparr>remove_chars := 512\<rparr>"
  have v: "valid_shape ?a" by (simp add: valid_shape_def default_config_def)
  have f: "digest_fits demo_xof (hash1_len ?a)" "digest_fits demo_xof (hash2_len ?a)"
    by (simp_all add: default_config_def)
  have r: "hash2_len ?a \<le> remove_chars ?a" by (simp add: default_config_def)
  have "fst (pipeline demo_xof 1 ?a demo_rng) = Inl ValueError"
    using v f r by (rule pipeline_value_error) simp
  with v show ?thesis by (simp add: valid_config_def default_config_def)
qed



end
